theory Spec2Isabelle
  imports Main
begin

section \<open>The linked deque of linkedDeque.js\<close>

text \<open>
  The deque is a JavaScript object with the fields \<open>head\<close>, \<open>tail\<close> and \<open>_length\<close>; its nodes
  are objects with the fields \<open>val\<close>, \<open>prev\<close> and \<open>next\<close>, mutated in place and reached through
  references. The model keeps the nodes in an explicit store (a function from addresses to
  node records, with an allocation counter) and passes the deque's own fields around as a
  record, so that every pointer assignment of the source is an update of the store.

  \<^item> A reference to a node is an \<open>addr option\<close>; \<open>None\<close> is \<open>null\<close>.
  \<^item> An element is a JavaScript value, an \<open>'a jsval\<close>: \<open>null\<close>, \<open>undefined\<close>, or any other
    value. The two absent values are kept apart because the source treats them differently:
    the default parameter of \<open>Node\<close> (\<open>value=null\<close>) replaces \<open>undefined\<close> by \<open>null\<close>, while
    the assignments \<open>this.tail.val = value\<close> and \<open>this.head.val = value\<close> store
    \<open>undefined\<close> as it is.
  \<^item> Numbers (\<open>_length\<close>, indices, steps) are integers, as the documentation of the
    parameters says (\<open>{integer} index\<close>, \<open>{integer} steps\<close>). The one place where JavaScript
    leaves the integers is \<open>steps % 0\<close>, which is \<open>NaN\<close>: a number that may be \<open>NaN\<close> is an
    \<open>int option\<close>.
  \<^item> \<open>throw new RangeError\<close> is the result \<open>Inl RangeError\<close>; reading a field of \<open>null\<close> is
    \<open>Inl TypeError\<close>.
  \<^item> The \<open>while (current !== null)\<close> loops follow references for as long as there are any;
    they are partial functions into \<open>option\<close>, where \<open>None\<close> is a loop that never ends.
\<close>

subsection \<open>Data\<close>

type_synonym addr = nat

datatype 'a jsval = Null | Undefined | Val 'a

record 'a node =
  val :: "'a jsval"
  prev :: "addr option"
  "next" :: "addr option"

record 'a store =
  heap :: "addr \<Rightarrow> 'a node"
  fresh :: addr

record deque =
  head :: addr
  tail :: addr
  length_dq :: int

datatype error = RangeError | TypeError

text \<open>
  \<open>function Node(value=null)\<close>: the default applies when the argument is \<open>undefined\<close>, given
  or left out.
\<close>

definition Node :: "'a jsval \<Rightarrow> 'a node" where
  "Node v = \<lparr>val = (if v = Undefined then Null else v), prev = None, next = None\<rparr>"

text \<open>\<open>new Node(v)\<close>: the object is placed at the next unused address.\<close>

definition new_Node :: "'a store \<Rightarrow> 'a jsval \<Rightarrow> 'a store \<times> addr" where
  "new_Node s v = (s\<lparr>heap := (heap s)(fresh s := Node v), fresh := Suc (fresh s)\<rparr>, fresh s)"

text \<open>The assignments \<open>a.val = v\<close>, \<open>a.prev = x\<close> and \<open>a.next = x\<close>.\<close>

definition set_val :: "addr \<Rightarrow> 'a jsval \<Rightarrow> 'a store \<Rightarrow> 'a store" where
  "set_val a v s = s\<lparr>heap := (heap s)(a := (heap s a)\<lparr>val := v\<rparr>)\<rparr>"

definition set_prev :: "addr \<Rightarrow> addr option \<Rightarrow> 'a store \<Rightarrow> 'a store" where
  "set_prev a x s = s\<lparr>heap := (heap s)(a := (heap s a)\<lparr>prev := x\<rparr>)\<rparr>"

definition set_next :: "addr \<Rightarrow> addr option \<Rightarrow> 'a store \<Rightarrow> 'a store" where
  "set_next a x s = s\<lparr>heap := (heap s)(a := (heap s a)\<lparr>next := x\<rparr>)\<rparr>"

subsection \<open>End operations\<close>

definition push :: "'a store \<Rightarrow> deque \<Rightarrow> 'a jsval \<Rightarrow> 'a store \<times> deque" where
  "push s d v =
     (if length_dq d = 0
      then (set_val (tail d) v s, d\<lparr>length_dq := length_dq d + 1\<rparr>)
      else (case new_Node s v of (s1, newNode) \<Rightarrow>
              let s2 = set_prev newNode (Some (tail d)) s1;
                  s3 = set_next (tail d) (Some newNode) s2
              in (s3, d\<lparr>tail := newNode, length_dq := length_dq d + 1\<rparr>)))"

definition pushLeft :: "'a store \<Rightarrow> deque \<Rightarrow> 'a jsval \<Rightarrow> 'a store \<times> deque" where
  "pushLeft s d v =
     (if length_dq d = 0
      then (set_val (head d) v s, d\<lparr>length_dq := length_dq d + 1\<rparr>)
      else (case new_Node s v of (s1, newNode) \<Rightarrow>
              let s2 = set_next newNode (Some (head d)) s1;
                  s3 = set_prev (head d) (Some newNode) s2
              in (s3, d\<lparr>head := newNode, length_dq := length_dq d + 1\<rparr>)))"

text \<open>
  \<open>function Deque(iterable)\<close>: the argument is the list of the elements the iterable produces
  (the empty list when there is no argument, or one that is not iterable). \<open>new Node()\<close> is
  \<open>Node\<close> called with \<open>undefined\<close>.
\<close>

fun push_all :: "'a store \<Rightarrow> deque \<Rightarrow> 'a jsval list \<Rightarrow> 'a store \<times> deque" where
  "push_all s d [] = (s, d)"
| "push_all s d (element # rest) = (case push s d element of (s1, d1) \<Rightarrow> push_all s1 d1 rest)"

definition Deque :: "'a store \<Rightarrow> 'a jsval list \<Rightarrow> 'a store \<times> deque" where
  "Deque s iterable =
     (case new_Node s Undefined of (s1, a) \<Rightarrow>
        push_all s1 \<lparr>head = a, tail = a, length_dq = 0\<rparr> iterable)"

definition getHead :: "'a store \<Rightarrow> deque \<Rightarrow> 'a jsval" where
  "getHead s d = val (heap s (head d))"

definition getTail :: "'a store \<Rightarrow> deque \<Rightarrow> 'a jsval" where
  "getTail s d = val (heap s (tail d))"

text \<open>
  \<open>pop\<close> and \<open>popleft\<close>. In the last branch \<open>this.tail = this.tail.prev; this.tail.next = null\<close>
  is a TypeError when \<open>this.tail.prev\<close> is \<open>null\<close>.
\<close>

definition pop :: "'a store \<Rightarrow> deque \<Rightarrow> error + ('a store \<times> deque \<times> 'a jsval)" where
  "pop s d =
     (if length_dq d = 0 then Inr (s, d, Null)
      else if length_dq d = 1
      then (let lastElement = val (heap s (head d))
            in Inr (set_val (head d) Null s, d\<lparr>length_dq := length_dq d - 1\<rparr>, lastElement))
      else (let lastElement = tail d
            in case prev (heap s (tail d)) of
                 None \<Rightarrow> Inl TypeError
               | Some t \<Rightarrow>
                   let s1 = set_next t None s
                   in Inr (s1, d\<lparr>tail := t, length_dq := length_dq d - 1\<rparr>,
                           val (heap s1 lastElement))))"

definition popleft :: "'a store \<Rightarrow> deque \<Rightarrow> error + ('a store \<times> deque \<times> 'a jsval)" where
  "popleft s d =
     (if length_dq d = 0 then Inr (s, d, Null)
      else if length_dq d = 1
      then (let firstElement = val (heap s (head d))
            in Inr (set_val (head d) Null s, d\<lparr>length_dq := length_dq d - 1\<rparr>, firstElement))
      else (let firstElement = head d
            in case next (heap s (head d)) of
                 None \<Rightarrow> Inl TypeError
               | Some h \<Rightarrow>
                   let s1 = set_prev h None s
                   in Inr (s1, d\<lparr>head := h, length_dq := length_dq d - 1\<rparr>,
                           val (heap s1 firstElement))))"

subsection \<open>Indexed operations\<close>

text \<open>
  The loop of \<open>at\<close>. Leaving the loop with \<open>current === null\<close> returns \<open>undefined\<close>.
\<close>

partial_function (option) at_loop ::
  "'a store \<Rightarrow> bool \<Rightarrow> int \<Rightarrow> addr option \<Rightarrow> int \<Rightarrow> 'a jsval option" where
  [code]: "at_loop s pastMid index current currentIndex =
     (case current of
        None \<Rightarrow> Some Undefined
      | Some c \<Rightarrow>
          if currentIndex = index then Some (val (heap s c))
          else at_loop s pastMid index
                 (if pastMid then prev (heap s c) else next (heap s c))
                 (currentIndex + (if pastMid then - 1 else 1)))"

definition at :: "'a store \<Rightarrow> deque \<Rightarrow> int \<Rightarrow> (error + 'a jsval) option" where
  "at s d index =
     (if index \<ge> length_dq d \<or> index < 0 then Some (Inl RangeError)
      else let pastMid = index > length_dq d div 2;
               current = (if pastMid then tail d else head d);
               currentIndex = (if pastMid then length_dq d - 1 else 0)
           in map_option Inr (at_loop s pastMid index (Some current) currentIndex))"

text \<open>
  The loop of \<open>insertAt\<close>; \<open>prev.next = newNode\<close> is a TypeError when \<open>current.prev\<close> is
  \<open>null\<close>. Leaving the loop reaches the final \<open>return false\<close>.
\<close>

partial_function (option) insertAt_loop ::
  "'a store \<Rightarrow> deque \<Rightarrow> bool \<Rightarrow> int \<Rightarrow> addr \<Rightarrow> addr option \<Rightarrow> int
   \<Rightarrow> (error + ('a store \<times> deque \<times> bool)) option" where
  [code]: "insertAt_loop s d pastMid index newNode current currentIndex =
     (case current of
        None \<Rightarrow> Some (Inr (s, d, False))
      | Some c \<Rightarrow>
          if currentIndex \<noteq> index
          then insertAt_loop s d pastMid index newNode
                 (if pastMid then prev (heap s c) else next (heap s c))
                 (currentIndex + (if pastMid then - 1 else 1))
          else (case prev (heap s c) of
                  None \<Rightarrow> Some (Inl TypeError)
                | Some p \<Rightarrow>
                    let s1 = set_next p (Some newNode) s;
                        s2 = set_prev newNode (Some p) s1;
                        s3 = set_next newNode (Some c) s2;
                        s4 = set_prev c (Some newNode) s3
                    in Some (Inr (s4, d\<lparr>length_dq := length_dq d + 1\<rparr>, True))))"

definition insertAt ::
  "'a store \<Rightarrow> deque \<Rightarrow> 'a jsval \<Rightarrow> int \<Rightarrow> (error + ('a store \<times> deque \<times> bool)) option" where
  "insertAt s d v index =
     (if index < 0 \<or> index \<ge> length_dq d then Some (Inl RangeError)
      else if index = 0
      then (case pushLeft s d v of (s1, d1) \<Rightarrow> Some (Inr (s1, d1, True)))
      else let pastMid = index > length_dq d div 2
           in case new_Node s v of (s1, newNode) \<Rightarrow>
                let current = (if pastMid then tail d else head d);
                    currentIndex = (if pastMid then length_dq d - 1 else 0)
                in insertAt_loop s1 d pastMid index newNode (Some current) currentIndex)"

text \<open>
  The loop of \<open>removeAt\<close>; \<open>prev.next = next\<close> and \<open>next.prev = prev\<close> are TypeErrors when
  \<open>current.prev\<close>, respectively \<open>current.next\<close>, is \<open>null\<close>. Leaving the loop returns
  \<open>undefined\<close>.
\<close>

partial_function (option) removeAt_loop ::
  "'a store \<Rightarrow> deque \<Rightarrow> bool \<Rightarrow> int \<Rightarrow> addr option \<Rightarrow> int
   \<Rightarrow> (error + ('a store \<times> deque \<times> 'a jsval)) option" where
  [code]: "removeAt_loop s d pastMid index current currentIndex =
     (case current of
        None \<Rightarrow> Some (Inr (s, d, Undefined))
      | Some c \<Rightarrow>
          if currentIndex \<noteq> index
          then removeAt_loop s d pastMid index
                 (if pastMid then prev (heap s c) else next (heap s c))
                 (currentIndex + (if pastMid then - 1 else 1))
          else (case prev (heap s c) of
                  None \<Rightarrow> Some (Inl TypeError)
                | Some p \<Rightarrow>
                    (case next (heap s c) of
                       None \<Rightarrow> Some (Inl TypeError)
                     | Some n \<Rightarrow>
                         let s1 = set_next p (Some n) s;
                             s2 = set_prev n (Some p) s1
                         in Some (Inr (s2, d\<lparr>length_dq := length_dq d - 1\<rparr>,
                                       val (heap s2 c))))))"

definition removeAt ::
  "'a store \<Rightarrow> deque \<Rightarrow> int \<Rightarrow> (error + ('a store \<times> deque \<times> 'a jsval)) option" where
  "removeAt s d index =
     (if index < 0 \<or> index \<ge> length_dq d then Some (Inl RangeError)
      else if index = 0 then Some (popleft s d)
      else if index = length_dq d - 1 then Some (pop s d)
      else let pastMid = index > length_dq d div 2;
               current = (if pastMid then tail d else head d);
               currentIndex = (if pastMid then length_dq d - 1 else 0)
           in removeAt_loop s d pastMid index (Some current) currentIndex)"

subsection \<open>Structural operations\<close>

partial_function (option) reverse_loop :: "'a store \<Rightarrow> addr option \<Rightarrow> 'a store option" where
  [code]: "reverse_loop s current =
     (case current of
        None \<Rightarrow> Some s
      | Some c \<Rightarrow>
          let prev' = prev (heap s c);
              next' = next (heap s c);
              s1 = set_next c prev' s;
              s2 = set_prev c next' s1
          in reverse_loop s2 next')"

definition reverse :: "'a store \<Rightarrow> deque \<Rightarrow> ('a store \<times> deque) option" where
  "reverse s d =
     (let head' = head d;
          d1 = d\<lparr>head := tail d\<rparr>;
          d2 = d1\<lparr>tail := head'\<rparr>
      in map_option (\<lambda>s'. (s', d2)) (reverse_loop s (Some (tail d2))))"

text \<open>
  \<open>steps % this._length\<close>: the remainder has the sign of the dividend, and is \<open>NaN\<close> when the
  divisor is 0. Every comparison with \<open>NaN\<close> is false, so \<open>optimizeSteps\<close> returns \<open>NaN\<close> then.
\<close>

definition js_rem :: "int \<Rightarrow> int \<Rightarrow> int option" where
  "js_rem a b = (if b = 0 then None else Some (sgn a * (\<bar>a\<bar> mod \<bar>b\<bar>)))"

definition optimizeSteps :: "deque \<Rightarrow> int \<Rightarrow> int option" where
  "optimizeSteps d steps =
     (case js_rem steps (length_dq d) of
        None \<Rightarrow> None
      | Some steps1 \<Rightarrow>
          if \<bar>steps1\<bar> > length_dq d div 2
          then (if steps1 > 0 then Some (steps1 - length_dq d)
                else Some (steps1 + length_dq d))
          else Some steps1)"

text \<open>
  The two \<open>for\<close> loops of \<open>rotate\<close>, by the number of rounds: \<open>this.pushLeft(this.pop())\<close> and
  \<open>this.push(this.popleft())\<close>.
\<close>

fun rotate_right :: "nat \<Rightarrow> 'a store \<Rightarrow> deque \<Rightarrow> error + ('a store \<times> deque)" where
  "rotate_right 0 s d = Inr (s, d)"
| "rotate_right (Suc n) s d =
     (case pop s d of
        Inl e \<Rightarrow> Inl e
      | Inr (s1, d1, v) \<Rightarrow> (case pushLeft s1 d1 v of (s2, d2) \<Rightarrow> rotate_right n s2 d2))"

fun rotate_left :: "nat \<Rightarrow> 'a store \<Rightarrow> deque \<Rightarrow> error + ('a store \<times> deque)" where
  "rotate_left 0 s d = Inr (s, d)"
| "rotate_left (Suc n) s d =
     (case popleft s d of
        Inl e \<Rightarrow> Inl e
      | Inr (s1, d1, v) \<Rightarrow> (case push s1 d1 v of (s2, d2) \<Rightarrow> rotate_left n s2 d2))"

text \<open>
  With \<open>steps\<close> = \<open>NaN\<close> the test \<open>steps > 0\<close> is false and so is \<open>i < Math.abs(steps)\<close>: the
  second loop runs no round.
\<close>

definition rotate_dq :: "'a store \<Rightarrow> deque \<Rightarrow> int \<Rightarrow> error + ('a store \<times> deque)" where
  "rotate_dq s d steps =
     (if steps = 0 then Inr (s, d)
      else (case optimizeSteps d steps of
              None \<Rightarrow> Inr (s, d)
            | Some steps1 \<Rightarrow>
                if steps1 > 0 then rotate_right (nat steps1) s d
                else rotate_left (nat \<bar>steps1\<bar>) s d))"

partial_function (option) copy_loop ::
  "'a store \<Rightarrow> deque \<Rightarrow> addr option \<Rightarrow> ('a store \<times> deque) option" where
  [code]: "copy_loop s newDeque current =
     (case current of
        None \<Rightarrow> Some (s, newDeque)
      | Some c \<Rightarrow>
          (case push s newDeque (val (heap s c)) of
             (s1, newDeque1) \<Rightarrow> copy_loop s1 newDeque1 (next (heap s1 c))))"

definition copy :: "'a store \<Rightarrow> deque \<Rightarrow> ('a store \<times> deque) option" where
  "copy s d =
     (if length_dq d = 0 then Some (Deque s [])
      else (case Deque s [] of (s1, newDeque) \<Rightarrow> copy_loop s1 newDeque (Some (head d))))"

definition clear :: "'a store \<Rightarrow> deque \<Rightarrow> 'a store \<times> deque" where
  "clear s d =
     (let s1 = set_val (head d) Null s;
          s2 = set_next (head d) None s1
      in (s2, d\<lparr>tail := head d, length_dq := 0\<rparr>))"

partial_function (option) toArray_loop ::
  "'a store \<Rightarrow> addr option \<Rightarrow> 'a jsval list \<Rightarrow> 'a jsval list option" where
  [code]: "toArray_loop s current array =
     (case current of
        None \<Rightarrow> Some array
      | Some c \<Rightarrow> toArray_loop s (next (heap s c)) (array @ [val (heap s c)]))"

definition toArray :: "'a store \<Rightarrow> deque \<Rightarrow> 'a jsval list option" where
  "toArray s d =
     (if length_dq d = 0 then Some []
      else toArray_loop s (Some (head d)) [])"

subsection \<open>Iteration\<close>

text \<open>
  \<open>Deque.prototype[Symbol.iterator]\<close> returns an object whose only property is the method
  \<open>next\<close>; the variable \<open>current\<close> of the closure is the iterator's state. The iteration
  protocol calls \<open>next\<close> on that object, so inside \<open>next\<close> the name \<open>this\<close> is the iterator
  object, not the deque: \<open>this._length\<close> reads a property the object does not have and is
  \<open>undefined\<close>.
\<close>

definition iterator :: "deque \<Rightarrow> addr option" where
  "iterator d = Some (head d)"

definition iterator_this_length :: "int option" where
  "iterator_this_length = None"

text \<open>The result of \<open>next\<close> is the pair of \<open>value\<close> and \<open>done\<close>, with the new \<open>current\<close>.\<close>

definition iterator_next :: "'a store \<Rightarrow> addr option \<Rightarrow> ('a jsval \<times> bool) \<times> addr option" where
  "iterator_next s current =
     (case current of
        None \<Rightarrow> ((Undefined, True), current)
      | Some c \<Rightarrow>
          if iterator_this_length = Some 0 then ((Undefined, True), current)
          else (let result = val (heap s c)
                in ((result, False), next (heap s c))))"

text \<open>
  Consuming the iterator, as \<open>for (x of deque)\<close> and \<open>[...deque]\<close> do: \<open>next\<close> is called until
  it reports \<open>done\<close>, and the values before that are the elements produced.
\<close>

partial_function (option) iterate_loop ::
  "'a store \<Rightarrow> addr option \<Rightarrow> 'a jsval list \<Rightarrow> 'a jsval list option" where
  [code]: "iterate_loop s current produced =
     (case iterator_next s current of
        ((v, is_done), current1) \<Rightarrow>
          if is_done then Some produced
          else iterate_loop s current1 (produced @ [v]))"

definition iterate :: "'a store \<Rightarrow> deque \<Rightarrow> 'a jsval list option" where
  "iterate s d = iterate_loop s (iterator d) []"

subsection \<open>Mutating operations, as data\<close>

text \<open>
  The operations that change a deque, and their effect on the store and on the deque's
  fields. A sequence of calls stops at the first exception, as the caller's code does when
  it does not catch it.
\<close>

datatype 'a mutation =
    Push "'a jsval"
  | PushLeft "'a jsval"
  | Pop
  | Popleft
  | InsertAt "'a jsval" int
  | RemoveAt int
  | Reverse
  | Rotate int
  | Clear

fun drop_result :: "error + ('s \<times> 'd \<times> 'r) \<Rightarrow> error + ('s \<times> 'd)" where
  "drop_result (Inl e) = Inl e"
| "drop_result (Inr (s, d, r)) = Inr (s, d)"

fun mutate :: "'a store \<Rightarrow> deque \<Rightarrow> 'a mutation \<Rightarrow> (error + ('a store \<times> deque)) option" where
  "mutate s d (Push v) = Some (Inr (push s d v))"
| "mutate s d (PushLeft v) = Some (Inr (pushLeft s d v))"
| "mutate s d Pop = Some (drop_result (pop s d))"
| "mutate s d Popleft = Some (drop_result (popleft s d))"
| "mutate s d (InsertAt v i) = map_option drop_result (insertAt s d v i)"
| "mutate s d (RemoveAt i) = map_option drop_result (removeAt s d i)"
| "mutate s d Reverse = map_option Inr (reverse s d)"
| "mutate s d (Rotate k) = Some (rotate_dq s d k)"
| "mutate s d Clear = Some (Inr (clear s d))"

fun mutate_all ::
  "'a store \<Rightarrow> deque \<Rightarrow> 'a mutation list \<Rightarrow> (error + ('a store \<times> deque)) option" where
  "mutate_all s d [] = Some (Inr (s, d))"
| "mutate_all s d (m # ms) =
     (case mutate s d m of
        Some (Inr (s1, d1)) \<Rightarrow> mutate_all s1 d1 ms
      | r \<Rightarrow> r)"

subsection \<open>The structure of a deque in the store\<close>

text \<open>
  \<open>follow f n x\<close> follows the reference \<open>f\<close> from \<open>x\<close> and lists the nodes it visits, at most
  \<open>n\<close> of them. A deque of length \<open>l\<close> owns \<open>l\<close> nodes, and one node when it is empty.
\<close>

fun follow :: "(addr \<Rightarrow> addr option) \<Rightarrow> nat \<Rightarrow> addr option \<Rightarrow> addr list" where
  "follow f 0 x = []"
| "follow f (Suc n) None = []"
| "follow f (Suc n) (Some a) = a # follow f n (f a)"

definition node_count :: "deque \<Rightarrow> nat" where
  "node_count d = (if length_dq d = 0 then 1 else nat (length_dq d))"

definition next_nodes :: "'a store \<Rightarrow> deque \<Rightarrow> addr list" where
  "next_nodes s d = follow (\<lambda>a. next (heap s a)) (Suc (node_count d)) (Some (head d))"

definition prev_nodes :: "'a store \<Rightarrow> deque \<Rightarrow> addr list" where
  "prev_nodes s d = follow (\<lambda>a. prev (heap s a)) (Suc (node_count d)) (Some (tail d))"

text \<open>
  The invariant of the data model: the length is not negative; following \<open>next\<close> from the
  head visits exactly the deque's nodes and ends at the tail, whose \<open>next\<close> is \<open>null\<close>;
  following \<open>prev\<close> from the tail visits the same nodes in reverse and ends at the head, whose
  \<open>prev\<close> is \<open>null\<close>; the nodes are allocated; the node of an empty deque holds \<open>null\<close>.
  With one node (length 0 or 1) this says that head and tail are that node and that both
  its links are \<open>null\<close>.
\<close>

definition invariant :: "'a store \<Rightarrow> deque \<Rightarrow> bool" where
  "invariant s d \<longleftrightarrow>
     0 \<le> length_dq d \<and>
     length (next_nodes s d) = node_count d \<and>
     last (next_nodes s d) = tail d \<and>
     prev_nodes s d = rev (next_nodes s d) \<and>
     (\<forall>a\<in>set (next_nodes s d). a < fresh s) \<and>
     (length_dq d = 0 \<longrightarrow> val (heap s (head d)) = Null)"

text \<open>The invariants as the spec lists them for length 0 and for length 2 and more.\<close>

definition structural_invariants :: "'a store \<Rightarrow> deque \<Rightarrow> bool" where
  "structural_invariants s d \<longleftrightarrow>
     0 \<le> length_dq d \<and>
     (length_dq d = 0 \<longrightarrow> head d = tail d \<and> val (heap s (head d)) = Null) \<and>
     (length_dq d \<ge> 2 \<longrightarrow>
        prev (heap s (head d)) = None \<and> next (heap s (tail d)) = None \<and>
        length (next_nodes s d) = nat (length_dq d) \<and>
        last (next_nodes s d) = tail d \<and>
        prev_nodes s d = rev (next_nodes s d) \<and>
        last (prev_nodes s d) = head d)"

text \<open>
  For the proofs, the same structure relative to the list \<open>as\<close> of the deque's nodes:
  \<open>dll h p as n\<close> says that the nodes \<open>as\<close> are linked in both directions, with \<open>p\<close> before
  the first and \<open>n\<close> after the last.
\<close>

fun dll :: "(addr \<Rightarrow> 'a node) \<Rightarrow> addr option \<Rightarrow> addr list \<Rightarrow> addr option \<Rightarrow> bool" where
  "dll h p [] n = True"
| "dll h p [a] n = (prev (h a) = p \<and> next (h a) = n)"
| "dll h p (a # b # as) n = (prev (h a) = p \<and> next (h a) = Some b \<and> dll h (Some a) (b # as) n)"

definition rep :: "'a store \<Rightarrow> deque \<Rightarrow> addr list \<Rightarrow> bool" where
  "rep s d as \<longleftrightarrow>
     as \<noteq> [] \<and> distinct as \<and> dll (heap s) None as None \<and>
     head d = hd as \<and> tail d = last as \<and> (\<forall>a\<in>set as. a < fresh s) \<and>
     (if length_dq d = 0 then length as = 1 \<and> val (heap s (hd as)) = Null
      else length_dq d = int (length as))"

definition elems :: "'a store \<Rightarrow> deque \<Rightarrow> addr list \<Rightarrow> 'a jsval list" where
  "elems s d as = (if length_dq d = 0 then [] else map (\<lambda>a. val (heap s a)) as)"

text \<open>
  What an operation on the deque with the nodes \<open>as\<close> may do to the store: it allocates, and
  it leaves every allocated node that is not one of \<open>as\<close> as it was; its nodes afterwards,
  \<open>as'\<close>, are old ones or newly allocated.
\<close>

definition frame :: "'a store \<Rightarrow> addr list \<Rightarrow> 'a store \<Rightarrow> addr list \<Rightarrow> bool" where
  "frame s as s' as' \<longleftrightarrow>
     fresh s \<le> fresh s' \<and>
     (\<forall>a. a < fresh s \<and> a \<notin> set as \<longrightarrow> heap s' a = heap s a) \<and>
     (\<forall>a\<in>set as'. a \<in> set as \<or> fresh s \<le> a)"

text \<open>Auxiliary notions of the proofs: the first node of a list of nodes, a node with its two
  links exchanged, and what one round of each loop of \<open>rotate\<close> does to the sequence of
  elements: the element that moves to the other end passes through \<open>Node\<close>, unless it is
  the only one.\<close>

definition first :: "addr list \<Rightarrow> addr option" where
  "first as = (case as of [] \<Rightarrow> None | a # _ \<Rightarrow> Some a)"

definition swap_links :: "'a node \<Rightarrow> 'a node" where
  "swap_links nd = nd\<lparr>next := prev nd, prev := next nd\<rparr>"

definition rotate_right1 :: "'a jsval list \<Rightarrow> 'a jsval list" where
  "rotate_right1 xs = (if length xs \<le> 1 then xs else val (Node (last xs)) # butlast xs)"

definition rotate_left1 :: "'a jsval list \<Rightarrow> 'a jsval list" where
  "rotate_left1 xs = (if length xs \<le> 1 then xs else tl xs @ [val (Node (hd xs))])"

text \<open>The effect of \<open>rotate\<close> on the sequence of elements, and the effect of pushing the
  values \<open>xs\<close>, one after the other, on a deque with the elements \<open>es\<close>: the first value
  pushed on an empty deque is stored as it is, every other one passes through \<open>Node\<close>.\<close>

fun pushed :: "'a jsval list \<Rightarrow> 'a jsval list \<Rightarrow> 'a jsval list" where
  "pushed es [] = es"
| "pushed es (x # xs) = pushed (es @ [if es = [] then x else val (Node x)]) xs"


definition rotated :: "deque \<Rightarrow> int \<Rightarrow> 'a jsval list \<Rightarrow> 'a jsval list" where
  "rotated d k xs =
     (if k = 0 then xs
      else case optimizeSteps d k of
             None \<Rightarrow> xs
           | Some r \<Rightarrow> if r > 0 then (rotate_right1 ^^ nat r) xs else (rotate_left1 ^^ nat \<bar>r\<bar>) xs)"


subsection \<open>Client sequences and example deques\<close>



text \<open>\<open>d.insertAt(v, index); d.at(index)\<close>.\<close>

definition insertAt_then_at ::
  "'a store \<Rightarrow> deque \<Rightarrow> 'a jsval \<Rightarrow> int \<Rightarrow> (error + 'a jsval) option" where
  "insertAt_then_at s d v index =
     (case insertAt s d v index of
        None \<Rightarrow> None
      | Some (Inl e) \<Rightarrow> Some (Inl e)
      | Some (Inr (s1, d1, ok)) \<Rightarrow> at s1 d1 index)"

text \<open>\<open>d.rotate(k); d.rotate(-k); d.toArray()\<close>, with \<open>None\<close> when a call throws.\<close>

definition rotate_and_back :: "'a store \<Rightarrow> deque \<Rightarrow> int \<Rightarrow> 'a jsval list option" where
  "rotate_and_back s d k =
     (case rotate_dq s d k of
        Inl e \<Rightarrow> None
      | Inr (s1, d1) \<Rightarrow>
          (case rotate_dq s1 d1 (- k) of
             Inl e \<Rightarrow> None
           | Inr (s2, d2) \<Rightarrow> toArray s2 d2))"

text \<open>\<open>d.copy().toArray()\<close>.\<close>

definition copy_toArray :: "'a store \<Rightarrow> deque \<Rightarrow> 'a jsval list option" where
  "copy_toArray s d = (case copy s d of None \<Rightarrow> None | Some (s1, c) \<Rightarrow> toArray s1 c)"

text \<open>
  In a store with no node allocated: \<open>new Deque([1, 2, 3])\<close>, \<open>new Deque()\<close>,
  \<open>new Deque([undefined, 1, 2])\<close>, and the deque after
  \<open>d = new Deque(); d.push(undefined); d.pushLeft(1)\<close>.
\<close>

definition empty_store :: "nat store" where
  "empty_store = \<lparr>heap = (\<lambda>_. Node Undefined), fresh = 0\<rparr>"

definition deque123 :: "nat store \<times> deque" where
  "deque123 = Deque empty_store [Val 1, Val 2, Val 3]"

definition deque_empty :: "nat store \<times> deque" where
  "deque_empty = Deque empty_store []"

definition deque_u12 :: "nat store \<times> deque" where
  "deque_u12 = Deque empty_store [Undefined, Val 1, Val 2]"

definition deque_1u :: "nat store \<times> deque" where
  "deque_1u =
     (case Deque empty_store [] of
        (s, d) \<Rightarrow> (case push s d Undefined of (s1, d1) \<Rightarrow> pushLeft s1 d1 (Val 1)))"

section \<open>Linked nodes\<close>

lemma dll_Cons:
  "dll h p (a # as) n =
     (prev (h a) = p \<and> (case as of [] \<Rightarrow> next (h a) = n
                                   | b # bs \<Rightarrow> next (h a) = Some b \<and> dll h (Some a) as n))"
  by (cases as) auto

lemma dll_append:
  "xs \<noteq> [] \<Longrightarrow> ys \<noteq> [] \<Longrightarrow>
   dll h p (xs @ ys) n = (dll h p xs (Some (hd ys)) \<and> dll h (Some (last xs)) ys n)"
proof (induction h p xs n rule: dll.induct)
  case (1 h p n)
  then show ?case by simp
next
  case (2 h p a n)
  then show ?case by (cases ys) auto
next
  case (3 h p a b as n)
  then show ?case by auto
qed

lemma dll_snoc:
  "xs \<noteq> [] \<Longrightarrow>
   dll h p (xs @ [a]) n = (dll h p xs (Some a) \<and> prev (h a) = Some (last xs) \<and> next (h a) = n)"
  by (simp add: dll_append)

lemma dll_relink:
  "dll h p as n \<Longrightarrow> as \<noteq> [] \<Longrightarrow> distinct as \<Longrightarrow>
   (\<forall>a\<in>set as. prev (h' a) = (if a = hd as then p' else prev (h a)) \<and>
                next (h' a) = (if a = last as then n' else next (h a))) \<Longrightarrow>
   dll h' p' as n'"
proof (induction h p as n arbitrary: p' rule: dll.induct)
  case (1 h p n)
  then show ?case by simp
next
  case (2 h p a n)
  then show ?case by simp
next
  case (3 h p a b as n)
  have "dll h' (Some a) (b # as) n'"
  proof (rule "3.IH")
    show "dll h (Some a) (b # as) n" using "3.prems"(1) by simp
    show "b # as \<noteq> []" by simp
    show "distinct (b # as)" using "3.prems"(3) by simp
    show "\<forall>x\<in>set (b # as). prev (h' x) = (if x = hd (b # as) then Some a else prev (h x)) \<and>
                next (h' x) = (if x = last (b # as) then n' else next (h x))"
    proof
      fix x assume x: "x \<in> set (b # as)"
      then have xa: "x \<noteq> a" using "3.prems"(3) by auto
      have "prev (h b) = Some a" using "3.prems"(1) by (cases as) auto
      then show "prev (h' x) = (if x = hd (b # as) then Some a else prev (h x)) \<and>
                next (h' x) = (if x = last (b # as) then n' else next (h x))"
        using "3.prems"(4) x xa by auto
    qed
  qed
  moreover have "prev (h' a) = p'" using "3.prems"(4) by simp
  moreover have "a \<noteq> last (a # b # as)" using "3.prems"(3)
    by (metis distinct.simps(2) last_ConsR last_in_set list.distinct(1))
  then have "next (h' a) = Some b" using "3.prems"(4) "3.prems"(1) by simp
  ultimately show ?case by simp
qed

lemma dll_cong:
  "(\<forall>a\<in>set as. prev (h' a) = prev (h a) \<and> next (h' a) = next (h a)) \<Longrightarrow>
   dll h' p as n = dll h p as n"
  by (induction h p as n rule: dll.induct) auto

lemma dll_nth_next:
  "dll h p as n \<Longrightarrow> i < length as \<Longrightarrow>
   next (h (as ! i)) = (if Suc i < length as then Some (as ! Suc i) else n)"
proof (induction h p as n arbitrary: i rule: dll.induct)
  case (3 h p a b as n)
  then show ?case by (cases i) auto
qed auto

lemma dll_nth_prev:
  "dll h p as n \<Longrightarrow> i < length as \<Longrightarrow>
   prev (h (as ! i)) = (if i = 0 then p else Some (as ! (i - 1)))"
proof (induction h p as n arbitrary: i rule: dll.induct)
  case (3 h p a b as n)
  then show ?case by (cases i) auto
qed auto

lemma dll_pointwise:
  "(\<forall>i<length as. prev (h (as ! i)) = (if i = 0 then p else Some (as ! (i - 1))) \<and>
                   next (h (as ! i)) = (if Suc i < length as then Some (as ! Suc i) else n)) \<Longrightarrow>
   dll h p as n"
proof (induction h p as n rule: dll.induct)
  case (1 h p n)
  then show ?case by simp
next
  case (2 h p a n)
  then show ?case by simp
next
  case (3 h p a b as n)
  have 0: "prev (h a) = p \<and> next (h a) = Some b" using "3.prems"[rule_format, of 0] by simp
  have "dll h (Some a) (b # as) n"
  proof (rule "3.IH", intro allI impI)
    fix i assume "i < length (b # as)"
    then show "prev (h ((b # as) ! i)) = (if i = 0 then Some a else Some ((b # as) ! (i - 1))) \<and>
         next (h ((b # as) ! i)) = (if Suc i < length (b # as) then Some ((b # as) ! Suc i) else n)"
      using "3.prems"[rule_format, of "Suc i"] by (cases i) auto
  qed
  with 0 show ?case by simp
qed

lemma dll_rev:
  "dll h p as n \<Longrightarrow>
   (\<forall>a\<in>set as. prev (h' a) = next (h a) \<and> next (h' a) = prev (h a)) \<Longrightarrow>
   dll h' n (rev as) p"
proof (induction h p as n rule: dll.induct)
  case (1 h p n)
  then show ?case by simp
next
  case (2 h p a n)
  then show ?case by simp
next
  case (3 h p a b as n)
  have r: "dll h' n (rev (b # as)) (Some a)" using 3 by simp
  have ne: "rev (b # as) \<noteq> []" by simp
  have "dll h' n (rev (b # as) @ [a]) p"
    unfolding dll_snoc[OF ne] using r "3.prems" by simp
  then show ?case by simp
qed

section \<open>The invariant and the list of nodes\<close>

lemma follow_None: "follow f n None = []"
  by (cases n) auto

lemma follow_dll_next:
  "dll h p as None \<Longrightarrow> as \<noteq> [] \<Longrightarrow> follow (\<lambda>a. next (h a)) n (Some (hd as)) = take n as"
proof (induction as arbitrary: n p)
  case Nil
  then show ?case by simp
next
  case (Cons a bs)
  show ?case
  proof (cases n)
    case 0
    then show ?thesis by simp
  next
    case (Suc m)
    show ?thesis
    proof (cases bs)
      case Nil
      then show ?thesis using Cons.prems Suc by (simp add: follow_None)
    next
      case (Cons b cs)
      then have "next (h a) = Some (hd bs)" and "dll h (Some a) bs None"
        using Cons.prems by auto
      then show ?thesis using Cons.IH[of "Some a" m] Cons Suc by simp
    qed
  qed
qed

lemma follow_dll_prev:
  "dll h None as n \<Longrightarrow> as \<noteq> [] \<Longrightarrow> follow (\<lambda>a. prev (h a)) k (Some (last as)) = take k (rev as)"
proof (induction as arbitrary: k n rule: rev_induct)
  case Nil
  then show ?case by simp
next
  case (snoc a bs)
  show ?case
  proof (cases k)
    case 0
    then show ?thesis by simp
  next
    case (Suc m)
    show ?thesis
    proof (cases "bs = []")
      case True
      then show ?thesis using snoc.prems Suc by (simp add: follow_None)
    next
      case False
      then have "prev (h a) = Some (last bs)" and "dll h None bs (Some a)"
        using snoc.prems by (auto simp: dll_snoc)
      then show ?thesis using snoc.IH[of "Some a" m] False Suc by simp
    qed
  qed
qed

lemma follow_start:
  "follow f (Suc m) x = as \<Longrightarrow> x = (case as of [] \<Rightarrow> None | a # _ \<Rightarrow> Some a)"
  by (cases x) auto

lemma follow_chain:
  "follow f n x = as \<Longrightarrow> length as < n \<Longrightarrow>
   \<forall>i<length as. f (as ! i) = (if Suc i < length as then Some (as ! Suc i) else None)"
proof (induction f n x arbitrary: as rule: follow.induct)
  case (1 f x)
  then show ?case by simp
next
  case (2 f n)
  then show ?case by auto
next
  case (3 f n a)
  define bs where "bs = follow f n (f a)"
  have as: "as = a # bs" using "3.prems" bs_def by auto
  have len: "length bs < n" using "3.prems" as by simp
  have IH: "\<forall>i<length bs. f (bs ! i) = (if Suc i < length bs then Some (bs ! Suc i) else None)"
    using "3.IH"[of bs] bs_def len by simp
  obtain m where n: "n = Suc m" using len by (cases n) auto
  have fa: "f a = (case bs of [] \<Rightarrow> None | b # _ \<Rightarrow> Some b)"
    using follow_start[of f m "f a" bs] bs_def n by simp
  show ?case
  proof (intro allI impI)
    fix i assume i: "i < length as"
    show "f (as ! i) = (if Suc i < length as then Some (as ! Suc i) else None)"
    proof (cases i)
      case 0
      then show ?thesis using fa as by (cases bs) auto
    next
      case (Suc j)
      then show ?thesis using IH i as by auto
    qed
  qed
qed

lemma chain_distinct:
  assumes ch: "\<forall>i<length as. f (as ! i) = (if Suc i < length as then Some (as ! Suc i) else None)"
  shows "distinct as"
proof -
  have neq: "i < j \<Longrightarrow> j < length as \<Longrightarrow> as ! i \<noteq> as ! j" for i j
  proof (induction "length as - j" arbitrary: i j)
    case 0
    then show ?case by simp
  next
    case (Suc k)
    show ?case
    proof
      assume eq: "as ! i = as ! j"
      have fi: "f (as ! i) = Some (as ! Suc i)" using ch Suc.prems by simp
      have fj: "f (as ! j) = (if Suc j < length as then Some (as ! Suc j) else None)"
        using ch Suc.prems by simp
      show False
      proof (cases "Suc j < length as")
        case True
        then have "as ! Suc i = as ! Suc j" using fi fj eq by simp
        moreover have "as ! Suc i \<noteq> as ! Suc j"
          using Suc.hyps(1)[of "Suc j" "Suc i"] Suc.hyps(2) Suc.prems True by simp
        ultimately show False by simp
      next
        case False
        then show False using fi fj eq by simp
      qed
    qed
  qed
  show ?thesis
    unfolding distinct_conv_nth
  proof (intro allI impI)
    fix i j assume "i < length as" "j < length as" "i \<noteq> j"
    then show "as ! i \<noteq> as ! j"
      using neq[of i j] neq[of j i] by (cases "i < j") auto
  qed
qed

lemma rep_next_nodes: "rep s d as \<Longrightarrow> next_nodes s d = as"
  unfolding rep_def next_nodes_def node_count_def
  using follow_dll_next[of "heap s" None as "Suc (length as)"]
  by (auto split: if_splits)

lemma rep_prev_nodes: "rep s d as \<Longrightarrow> prev_nodes s d = rev as"
  unfolding rep_def prev_nodes_def node_count_def
  using follow_dll_prev[of "heap s" as None "Suc (length as)"]
  by (auto split: if_splits)

lemma rep_invariant: "rep s d as \<Longrightarrow> invariant s d"
  unfolding invariant_def
  by (simp add: rep_next_nodes rep_prev_nodes) (auto simp: rep_def node_count_def split: if_splits)

lemma invariant_rep:
  assumes "invariant s d"
  shows "rep s d (next_nodes s d)"
proof -
  define as where "as = next_nodes s d"
  define k where "k = node_count d"
  have k: "0 < k" by (auto simp: k_def node_count_def) (use assms in \<open>auto simp: invariant_def\<close>)
  have len: "length as = k" using assms by (simp add: invariant_def as_def k_def)
  have nx: "follow (\<lambda>a. next (heap s a)) (Suc k) (Some (head d)) = as"
    by (simp add: as_def next_nodes_def k_def)
  have pv: "follow (\<lambda>a. prev (heap s a)) (Suc k) (Some (tail d)) = rev as"
    using assms by (simp add: invariant_def as_def prev_nodes_def k_def)
  have ne: "as \<noteq> []" using len k by auto
  have hd: "head d = hd as" using nx ne by (cases as) auto
  have tl: "tail d = last as" using assms by (simp add: invariant_def as_def)
  have chn: "\<forall>i<length as. next (heap s (as ! i)) = (if Suc i < length as then Some (as ! Suc i) else None)"
    using follow_chain[OF nx] len by simp
  have chp: "\<forall>i<length (rev as). prev (heap s (rev as ! i)) =
               (if Suc i < length (rev as) then Some (rev as ! Suc i) else None)"
    using follow_chain[OF pv] len by simp
  have dist: "distinct as" using chain_distinct[OF chn] .
  have prevs: "prev (heap s (as ! i)) = (if i = 0 then None else Some (as ! (i - 1)))"
    if i: "i < length as" for i
  proof -
    define j where "j = length as - Suc i"
    have j: "j < length as" "rev as ! j = as ! i" using i by (auto simp: j_def rev_nth)
    have "prev (heap s (rev as ! j)) = (if Suc j < length as then Some (rev as ! Suc j) else None)"
      using chp[rule_format, of j] j(1) by simp
    moreover have "Suc j < length as \<longleftrightarrow> i \<noteq> 0" using i by (auto simp: j_def)
    moreover have "i \<noteq> 0 \<Longrightarrow> rev as ! Suc j = as ! (i - 1)"
    proof -
      assume i0: "i \<noteq> 0"
      then have "Suc j < length as" and "length as - Suc (Suc j) = i - 1"
        using i by (auto simp: j_def)
      then show ?thesis by (simp add: rev_nth)
    qed
    ultimately show ?thesis using j by auto
  qed
  have "dll (heap s) None as None"
    by (rule dll_pointwise) (use prevs chn in auto)
  moreover have "\<forall>a\<in>set as. a < fresh s" using assms by (simp add: invariant_def as_def)
  moreover have "if length_dq d = 0 then length as = 1 \<and> val (heap s (hd as)) = Null
      else length_dq d = int (length as)"
    using assms len hd by (auto simp: invariant_def k_def node_count_def)
  ultimately show ?thesis using ne dist hd tl unfolding rep_def as_def by simp
qed

lemma invariant_iff_rep: "invariant s d \<longleftrightarrow> (\<exists>as. rep s d as)"
  using invariant_rep rep_invariant by blast

section \<open>Stores, frames and push\<close>

lemma heap_set_val [simp]: "heap (set_val a v s) = (heap s)(a := (heap s a)\<lparr>val := v\<rparr>)"
  and fresh_set_val [simp]: "fresh (set_val a v s) = fresh s"
  by (simp_all add: set_val_def)

lemma heap_set_prev [simp]: "heap (set_prev a x s) = (heap s)(a := (heap s a)\<lparr>prev := x\<rparr>)"
  and fresh_set_prev [simp]: "fresh (set_prev a x s) = fresh s"
  by (simp_all add: set_prev_def)

lemma heap_set_next [simp]: "heap (set_next a x s) = (heap s)(a := (heap s a)\<lparr>next := x\<rparr>)"
  and fresh_set_next [simp]: "fresh (set_next a x s) = fresh s"
  by (simp_all add: set_next_def)

lemma new_Node_simps [simp]:
  "heap (fst (new_Node s v)) = (heap s)(fresh s := Node v)"
  "fresh (fst (new_Node s v)) = Suc (fresh s)"
  "snd (new_Node s v) = fresh s"
  by (simp_all add: new_Node_def)

lemma Node_simps [simp]: "prev (Node v) = None" "next (Node v) = None"
  by (simp_all add: Node_def)

lemma val_Node: "val (Node v) = (if v = Undefined then Null else v)"
  by (simp add: Node_def)

lemma Node_eq: "Node v = \<lparr>val = val (Node v), prev = None, next = None\<rparr>"
  by (simp add: Node_def)

lemma dll_ends:
  "dll h p as n \<Longrightarrow> as \<noteq> [] \<Longrightarrow> prev (h (hd as)) = p \<and> next (h (last as)) = n"
  using dll_nth_prev[of h p as n 0] dll_nth_next[of h p as n "length as - 1"]
  by (simp add: hd_conv_nth last_conv_nth)

lemma frame_refl: "frame s as s as"
  by (simp add: frame_def)

lemma frame_trans: "frame s as s1 as1 \<Longrightarrow> frame s1 as1 s2 as2 \<Longrightarrow> frame s as s2 as2"
  unfolding frame_def
  by (metis dual_order.trans leD order.strict_trans2)

lemma rep_frame:
  "rep s e bs \<Longrightarrow> frame s as s' as' \<Longrightarrow> set bs \<inter> set as = {} \<Longrightarrow>
   rep s' e bs \<and> elems s' e bs = elems s e bs \<and> set bs \<inter> set as' = {}"
proof -
  assume r: "rep s e bs" and f: "frame s as s' as'" and dj: "set bs \<inter> set as = {}"
  have same: "\<forall>b\<in>set bs. heap s' b = heap s b"
    using r f dj by (auto simp: rep_def frame_def)
  then have "dll (heap s') None bs None = dll (heap s) None bs None"
    by (intro dll_cong) simp
  moreover have "hd bs \<in> set bs" using r by (simp add: rep_def)
  moreover have "\<forall>b\<in>set bs. b < fresh s'" using r f by (fastforce simp: rep_def frame_def)
  ultimately have "rep s' e bs" using r same unfolding rep_def by simp
  moreover have "elems s' e bs = elems s e bs" using same by (simp add: elems_def)
  moreover have "set bs \<inter> set as' = {}"
    using r f dj by (fastforce simp: rep_def frame_def)
  ultimately show ?thesis by simp
qed

lemma push_spec:
  assumes "rep s d as"
  shows "\<exists>as'. rep (fst (push s d v)) (snd (push s d v)) as' \<and>
           elems (fst (push s d v)) (snd (push s d v)) as' =
             elems s d as @ [if length_dq d = 0 then v else val (Node v)] \<and>
           frame s as (fst (push s d v)) as' \<and>
           length_dq (snd (push s d v)) = length_dq d + 1"
proof (cases "length_dq d = 0")
  case True
  then obtain a where as: "as = [a]" using assms by (cases as) (auto simp: rep_def)
  have "rep (set_val a v s) (d\<lparr>length_dq := 1\<rparr>) as"
    using assms True as by (auto simp: rep_def)
  moreover have "elems (set_val a v s) (d\<lparr>length_dq := 1\<rparr>) as = [v]"
    using as by (simp add: elems_def)
  moreover have "frame s as (set_val a v s) as" by (simp add: frame_def as)
  moreover have "tail d = a" using assms as by (simp add: rep_def)
  ultimately show ?thesis using True by (auto simp: push_def elems_def)
next
  case False
  define m where "m = fresh s"
  define s' where "s' = fst (push s d v)"
  have len: "length_dq d = int (length as)" using assms False by (simp add: rep_def)
  have ne: "as \<noteq> []" and dist: "distinct as" and dl: "dll (heap s) None as None"
    and tl: "tail d = last as" and hd: "head d = hd as" and al: "\<forall>a\<in>set as. a < m"
    using assms by (auto simp: rep_def m_def)
  have m: "m \<notin> set as" using al by auto
  have lst: "last as \<in> set as" using ne by simp
  have pd: "push s d v = (s', d\<lparr>tail := m, length_dq := length_dq d + 1\<rparr>)"
    using False by (simp add: push_def s'_def m_def new_Node_def Let_def)
  have hp: "heap s' = ((heap s)(m := \<lparr>val = val (Node v), prev = Some (last as), next = None\<rparr>))
                        (last as := (heap s (last as))\<lparr>next := Some m\<rparr>)"
    using False m lst by (auto simp: s'_def push_def new_Node_def Let_def tl m_def Node_def)
  have fr: "fresh s' = Suc m"
    using False by (simp add: s'_def push_def new_Node_def Let_def m_def)
  have e: "prev (heap s (hd as)) = None" using dll_ends[OF dl ne] by simp
  have d1: "dll (heap s') None as (Some m)"
    by (rule dll_relink[OF dl ne dist]) (use m e hp in auto)
  have "m \<noteq> last as" using m lst by auto
  then have d2: "dll (heap s') None (as @ [m]) None"
    using d1 ne m by (simp add: dll_snoc hp)
  have "rep s' (d\<lparr>tail := m, length_dq := length_dq d + 1\<rparr>) (as @ [m])"
    using d2 ne dist m hd al fr len by (auto simp: rep_def)
  moreover have "elems s' (d\<lparr>tail := m, length_dq := length_dq d + 1\<rparr>) (as @ [m]) =
      elems s d as @ [val (Node v)]"
    using False len m by (auto simp: elems_def hp)
  moreover have "frame s as s' (as @ [m])"
    using lst by (auto simp: frame_def fr hp m_def)
  ultimately show ?thesis unfolding s'_def[symmetric] pd using False by auto
qed

section \<open>pushLeft, pop, popleft and clear\<close>

lemma pushLeft_spec:
  assumes "rep s d as"
  shows "\<exists>as'. rep (fst (pushLeft s d v)) (snd (pushLeft s d v)) as' \<and>
           elems (fst (pushLeft s d v)) (snd (pushLeft s d v)) as' =
             (if length_dq d = 0 then v else val (Node v)) # elems s d as \<and>
           frame s as (fst (pushLeft s d v)) as' \<and>
           length_dq (snd (pushLeft s d v)) = length_dq d + 1"
proof (cases "length_dq d = 0")
  case True
  then obtain a where as: "as = [a]" using assms by (cases as) (auto simp: rep_def)
  have "rep (set_val a v s) (d\<lparr>length_dq := 1\<rparr>) as"
    using assms True as by (auto simp: rep_def)
  moreover have "elems (set_val a v s) (d\<lparr>length_dq := 1\<rparr>) as = [v]"
    using as by (simp add: elems_def)
  moreover have "frame s as (set_val a v s) as" by (simp add: frame_def as)
  moreover have "head d = a" using assms as by (simp add: rep_def)
  ultimately show ?thesis using True by (auto simp: pushLeft_def elems_def)
next
  case False
  define m where "m = fresh s"
  define s' where "s' = fst (pushLeft s d v)"
  have len: "length_dq d = int (length as)" using assms False by (simp add: rep_def)
  have ne: "as \<noteq> []" and dist: "distinct as" and dl: "dll (heap s) None as None"
    and tl: "tail d = last as" and hd: "head d = hd as" and al: "\<forall>a\<in>set as. a < m"
    using assms by (auto simp: rep_def m_def)
  have m: "m \<notin> set as" using al by auto
  have fst: "hd as \<in> set as" using ne by simp
  have pd: "pushLeft s d v = (s', d\<lparr>head := m, length_dq := length_dq d + 1\<rparr>)"
    using False by (simp add: pushLeft_def s'_def m_def new_Node_def Let_def)
  have hp: "heap s' = ((heap s)(m := \<lparr>val = val (Node v), prev = None, next = Some (hd as)\<rparr>))
                        (hd as := (heap s (hd as))\<lparr>prev := Some m\<rparr>)"
    using False m fst by (auto simp: s'_def pushLeft_def new_Node_def Let_def hd m_def Node_def)
  have fr: "fresh s' = Suc m"
    using False by (simp add: s'_def pushLeft_def new_Node_def Let_def m_def)
  have e: "next (heap s (last as)) = None" using dll_ends[OF dl ne] by simp
  have d1: "dll (heap s') (Some m) as None"
    by (rule dll_relink[OF dl ne dist]) (use m e hp in auto)
  have "m \<noteq> hd as" using m fst by auto
  then have d2: "dll (heap s') None (m # as) None"
    using d1 ne m by (cases as) (auto simp: hp)
  have "rep s' (d\<lparr>head := m, length_dq := length_dq d + 1\<rparr>) (m # as)"
    using d2 ne dist m tl al fr len by (auto simp: rep_def)
  moreover have "elems s' (d\<lparr>head := m, length_dq := length_dq d + 1\<rparr>) (m # as) =
      val (Node v) # elems s d as"
    using False len m by (auto simp: elems_def hp)
  moreover have "frame s as s' (m # as)"
    using fst by (auto simp: frame_def fr hp m_def)
  ultimately show ?thesis unfolding s'_def[symmetric] pd using False by auto
qed

lemma pop_spec:
  assumes "rep s d as"
  shows "\<exists>s' d' r as'. pop s d = Inr (s', d', r) \<and> rep s' d' as' \<and> frame s as s' as' \<and>
           (if length_dq d = 0 then s' = s \<and> d' = d \<and> r = Null
            else r = last (elems s d as) \<and> elems s' d' as' = butlast (elems s d as) \<and>
                 length_dq d' = length_dq d - 1)"
proof -
  have ne: "as \<noteq> []" and dist: "distinct as" and dl: "dll (heap s) None as None"
    and tl: "tail d = last as" and hd: "head d = hd as" and al: "\<forall>a\<in>set as. a < fresh s"
    using assms by (auto simp: rep_def)
  consider (zero) "length_dq d = 0" | (one) "length_dq d = 1" | (more) "length_dq d \<noteq> 0" "length_dq d \<noteq> 1"
    by blast
  then show ?thesis
  proof cases
    case zero
    then show ?thesis using assms by (auto simp: pop_def frame_refl)
  next
    case one
    then obtain a where as: "as = [a]" using assms by (cases as) (auto simp: rep_def)
    have "rep (set_val a Null s) (d\<lparr>length_dq := 0\<rparr>) as"
      using assms one as by (auto simp: rep_def)
    moreover have "frame s as (set_val a Null s) as" by (simp add: frame_def as)
    ultimately show ?thesis using one as hd by (auto simp: pop_def elems_def)
  next
    case more
    have len: "length_dq d = int (length as)" using assms more by (simp add: rep_def)
    then have l2: "2 \<le> length as" using more by linarith
    define bs where "bs = butlast as"
    define t where "t = last as"
    have as: "as = bs @ [t]" using ne by (simp add: bs_def t_def)
    have bne: "bs \<noteq> []" using l2 as by (cases bs) auto
    have dl': "dll (heap s) None bs (Some t)" and pt: "prev (heap s t) = Some (last bs)"
      using dl bne unfolding as by (simp_all add: dll_snoc)
    define s' where "s' = set_next (last bs) None s"
    have d1: "dll (heap s') None bs None"
      by (rule dll_relink[OF dl' bne]) (use dist as dll_ends[OF dl' bne] in \<open>auto simp: s'_def\<close>)
    have lb: "last bs \<noteq> t" using dist bne unfolding as by auto
    have p: "pop s d = Inr (s', d\<lparr>tail := last bs, length_dq := length_dq d - 1\<rparr>, val (heap s t))"
      using more pt lb by (simp add: pop_def tl t_def[symmetric] s'_def Let_def)
    have "rep s' (d\<lparr>tail := last bs, length_dq := length_dq d - 1\<rparr>) bs"
      using d1 bne dist hd al len as by (auto simp: rep_def s'_def)
    moreover have "frame s as s' bs"
      using bne by (auto simp: frame_def s'_def as)
    moreover have "val (heap s t) = last (elems s d as)"
      using more by (simp add: elems_def as)
    moreover have "elems s' (d\<lparr>tail := last bs, length_dq := length_dq d - 1\<rparr>) bs = butlast (elems s d as)"
      using more len bne as by (auto simp: elems_def s'_def map_butlast[symmetric])
    ultimately show ?thesis using p more by auto
  qed
qed

lemma popleft_spec:
  assumes "rep s d as"
  shows "\<exists>s' d' r as'. popleft s d = Inr (s', d', r) \<and> rep s' d' as' \<and> frame s as s' as' \<and>
           (if length_dq d = 0 then s' = s \<and> d' = d \<and> r = Null
            else r = hd (elems s d as) \<and> elems s' d' as' = tl (elems s d as) \<and>
                 length_dq d' = length_dq d - 1)"
proof -
  have ne: "as \<noteq> []" and dist: "distinct as" and dl: "dll (heap s) None as None"
    and tl: "tail d = last as" and hd: "head d = hd as" and al: "\<forall>a\<in>set as. a < fresh s"
    using assms by (auto simp: rep_def)
  consider (zero) "length_dq d = 0" | (one) "length_dq d = 1" | (more) "length_dq d \<noteq> 0" "length_dq d \<noteq> 1"
    by blast
  then show ?thesis
  proof cases
    case zero
    then show ?thesis using assms by (auto simp: popleft_def frame_refl)
  next
    case one
    then obtain a where as: "as = [a]" using assms by (cases as) (auto simp: rep_def)
    have "rep (set_val a Null s) (d\<lparr>length_dq := 0\<rparr>) as"
      using assms one as by (auto simp: rep_def)
    moreover have "frame s as (set_val a Null s) as" by (simp add: frame_def as)
    ultimately show ?thesis using one as hd by (auto simp: popleft_def elems_def)
  next
    case more
    have len: "length_dq d = int (length as)" using assms more by (simp add: rep_def)
    then have l2: "2 \<le> length as" using more by linarith
    then obtain a b cs where as: "as = a # b # cs"
      by (cases as; cases "tl as") auto
    define bs where "bs = b # cs"
    have dl': "dll (heap s) (Some a) bs None" and nx: "next (heap s a) = Some b"
      using dl unfolding as bs_def by simp_all
    have bne: "bs \<noteq> []" by (simp add: bs_def)
    define s' where "s' = set_prev b None s"
    have d1: "dll (heap s') None bs None"
      by (rule dll_relink[OF dl' bne]) (use dist as dll_ends[OF dl' bne] in \<open>auto simp: s'_def bs_def\<close>)
    have ab: "a \<noteq> b" using dist as by auto
    have p: "popleft s d = Inr (s', d\<lparr>head := b, length_dq := length_dq d - 1\<rparr>, val (heap s a))"
      using more nx ab by (simp add: popleft_def hd as s'_def Let_def)
    have "rep s' (d\<lparr>head := b, length_dq := length_dq d - 1\<rparr>) bs"
      using d1 bne dist tl al len as by (auto simp: rep_def s'_def bs_def)
    moreover have "frame s as s' bs"
      by (auto simp: frame_def s'_def as bs_def)
    moreover have "val (heap s a) = hd (elems s d as)"
      using more by (simp add: elems_def as)
    moreover have "elems s' (d\<lparr>head := b, length_dq := length_dq d - 1\<rparr>) bs = tl (elems s d as)"
      using more len as by (auto simp: elems_def s'_def bs_def)
    ultimately show ?thesis using p more by auto
  qed
qed

lemma clear_spec:
  assumes "rep s d as"
  shows "\<exists>as'. rep (fst (clear s d)) (snd (clear s d)) as' \<and>
           elems (fst (clear s d)) (snd (clear s d)) as' = [] \<and>
           frame s as (fst (clear s d)) as' \<and> length_dq (snd (clear s d)) = 0"
proof -
  have ne: "as \<noteq> []" and dl: "dll (heap s) None as None"
    and hd: "head d = hd as" and al: "\<forall>a\<in>set as. a < fresh s"
    using assms by (auto simp: rep_def)
  have "prev (heap s (hd as)) = None" using dll_ends[OF dl ne] by simp
  then have "rep (fst (clear s d)) (snd (clear s d)) [hd as]"
    using ne al hd by (simp add: clear_def rep_def Let_def)
  moreover have "frame s as (fst (clear s d)) [hd as]"
    using ne hd by (auto simp: clear_def frame_def Let_def)
  ultimately show ?thesis by (auto simp: elems_def clear_def Let_def)
qed

section \<open>Loops that walk the nodes; at\<close>

lemma first_simps [simp]: "first [] = None" "first (a # as) = Some a"
  by (simp_all add: first_def)

lemma dll_step:
  "dll h p (a # bs) n \<Longrightarrow> dll h (Some a) bs n \<and> prev (h a) = p \<and> (bs \<noteq> [] \<longrightarrow> next (h a) = first bs)
     \<and> (bs = [] \<longrightarrow> next (h a) = n)"
  by (cases bs) auto

lemma toArray_loop_dll:
  "dll (heap s) p as None \<Longrightarrow>
   toArray_loop s (first as) acc = Some (acc @ map (\<lambda>a. val (heap s a)) as)"
proof (induction as arbitrary: p acc)
  case Nil
  then show ?case by (subst toArray_loop.simps) simp
next
  case (Cons a bs)
  have "next (heap s a) = first bs" using dll_step[OF Cons.prems] by (cases bs) auto
  then show ?case
    using Cons.IH[of "Some a" "acc @ [val (heap s a)]"] dll_step[OF Cons.prems]
    by (subst toArray_loop.simps) simp
qed

lemma toArray_rep: "rep s d as \<Longrightarrow> toArray s d = Some (elems s d as)"
  using toArray_loop_dll[of s None as "[]"]
  by (cases as) (auto simp: toArray_def elems_def rep_def)

lemma iterate_loop_dll:
  "dll (heap s) p as None \<Longrightarrow>
   iterate_loop s (first as) acc = Some (acc @ map (\<lambda>a. val (heap s a)) as)"
proof (induction as arbitrary: p acc)
  case Nil
  then show ?case by (subst iterate_loop.simps) (simp add: iterator_next_def)
next
  case (Cons a bs)
  have "next (heap s a) = first bs" using dll_step[OF Cons.prems] by (cases bs) auto
  then show ?case
    using Cons.IH[of "Some a" "acc @ [val (heap s a)]"] dll_step[OF Cons.prems]
    by (subst iterate_loop.simps) (simp add: iterator_next_def iterator_this_length_def)
qed

lemma iterate_rep: "rep s d as \<Longrightarrow> iterate s d = Some (map (\<lambda>a. val (heap s a)) as)"
  using iterate_loop_dll[of s None as "[]"]
  by (cases as) (auto simp: iterate_def iterator_def rep_def)

lemma at_loop_fwd:
  assumes "dll (heap s) p as n" "j < length as"
  shows "i \<le> j \<Longrightarrow> at_loop s False (int j) (Some (as ! i)) (int i) = Some (val (heap s (as ! j)))"
proof (induction "j - i" arbitrary: i)
  case 0
  then show ?case by (subst at_loop.simps) simp
next
  case (Suc k)
  have "Suc i < length as" using Suc.hyps(2) assms(2) by linarith
  then have "next (heap s (as ! i)) = Some (as ! Suc i)"
    using dll_nth_next[OF assms(1), of i] by simp
  moreover have eq: "int i + 1 = int (Suc i)" by simp
  have "at_loop s False (int j) (Some (as ! Suc i)) (int i + 1) = Some (val (heap s (as ! j)))"
    unfolding eq
  proof (rule Suc.hyps(1))
    show "k = j - Suc i" using Suc.hyps(2) by linarith
    show "Suc i \<le> j" using Suc.hyps(2) by linarith
  qed
  moreover have "int i \<noteq> int j" using Suc.hyps(2) by linarith
  ultimately show ?case
    by (subst at_loop.simps) (simp del: of_nat_Suc)
qed

lemma at_loop_bwd:
  assumes "dll (heap s) p as n" "i < length as"
  shows "j \<le> i \<Longrightarrow> at_loop s True (int j) (Some (as ! i)) (int i) = Some (val (heap s (as ! j)))"
  using assms(2)
proof (induction "i - j" arbitrary: i)
  case 0
  then show ?case by (subst at_loop.simps) simp
next
  case (Suc k)
  have "i \<noteq> 0" using Suc.hyps(2) by linarith
  then have "prev (heap s (as ! i)) = Some (as ! (i - 1))"
    using dll_nth_prev[OF assms(1), of i] Suc.prems by simp
  moreover have eq: "int i + - 1 = int (i - 1)" using \<open>i \<noteq> 0\<close> by simp
  have "at_loop s True (int j) (Some (as ! (i - 1))) (int i + - 1) = Some (val (heap s (as ! j)))"
    unfolding eq
  proof (rule Suc.hyps(1))
    show "k = i - 1 - j" using Suc.hyps(2) by linarith
    show "j \<le> i - 1" using Suc.hyps(2) by linarith
    show "i - 1 < length as" using Suc.prems by linarith
  qed
  moreover have "int i \<noteq> int j" using Suc.hyps(2) by linarith
  ultimately show ?case
    by (subst at_loop.simps) (simp del: of_nat_diff)
qed

lemma at_spec:
  assumes "rep s d as" "0 \<le> i" "i < length_dq d"
  shows "at s d i = Some (Inr (elems s d as ! nat i))"
proof -
  have ne: "as \<noteq> []" and dl: "dll (heap s) None as None"
    and tl: "tail d = last as" and hd: "head d = hd as"
    and len: "length_dq d = int (length as)"
    using assms by (auto simp: rep_def split: if_splits)
  define j where "j = nat i"
  have j: "i = int j" "j < length as" using assms len by (auto simp: j_def)
  have "length_dq d \<noteq> 0" using assms by linarith
  then have e: "elems s d as ! j = val (heap s (as ! j))" using j by (simp add: elems_def)
  show ?thesis
  proof (cases "i > length_dq d div 2")
    case True
    have "at_loop s True (int j) (Some (as ! (length as - 1))) (int (length as - 1)) = Some (val (heap s (as ! j)))"
      by (rule at_loop_bwd[OF dl]) (use j in auto)
    moreover have "length_dq d - 1 = int (length as - 1)" using len ne by (cases as) auto
    ultimately show ?thesis using True assms e j(1) ne
      by (simp add: at_def tl last_conv_nth j_def[symmetric])
  next
    case False
    have "at_loop s False (int j) (Some (as ! 0)) (int 0) = Some (val (heap s (as ! j)))"
      by (rule at_loop_fwd[OF dl]) (use j in auto)
    then show ?thesis using False assms e j(1) ne
      by (simp add: at_def hd hd_conv_nth j_def[symmetric])
  qed
qed

section \<open>Finding the node at an index\<close>

lemma insertAt_loop_fwd:
  assumes "dll (heap s) p as n" "j < length as"
  shows "i \<le> j \<Longrightarrow>
    insertAt_loop s d False (int j) m (Some (as ! i)) (int i) =
    insertAt_loop s d False (int j) m (Some (as ! j)) (int j)"
proof (induction "j - i" arbitrary: i)
  case 0
  then show ?case by simp
next
  case (Suc k)
  have "Suc i < length as" using Suc.hyps(2) assms(2) by linarith
  then have nx: "next (heap s (as ! i)) = Some (as ! Suc i)"
    using dll_nth_next[OF assms(1), of i] by simp
  have eq: "int i + 1 = int (Suc i)" by simp
  have ih: "insertAt_loop s d False (int j) m (Some (as ! Suc i)) (int i + 1) =
        insertAt_loop s d False (int j) m (Some (as ! j)) (int j)"
    unfolding eq
  proof (rule Suc.hyps(1))
    show "k = j - Suc i" using Suc.hyps(2) by linarith
    show "Suc i \<le> j" using Suc.hyps(2) by linarith
  qed
  have ne: "int i \<noteq> int j" using Suc.hyps(2) by linarith
  show ?case using nx ih ne
    by (subst insertAt_loop.simps) (simp del: of_nat_Suc)
qed

lemma insertAt_loop_bwd:
  assumes "dll (heap s) p as n" "i < length as"
  shows "j \<le> i \<Longrightarrow>
    insertAt_loop s d True (int j) m (Some (as ! i)) (int i) =
    insertAt_loop s d True (int j) m (Some (as ! j)) (int j)"
  using assms(2)
proof (induction "i - j" arbitrary: i)
  case 0
  then show ?case by simp
next
  case (Suc k)
  have i0: "i \<noteq> 0" using Suc.hyps(2) by linarith
  then have pv: "prev (heap s (as ! i)) = Some (as ! (i - 1))"
    using dll_nth_prev[OF assms(1), of i] Suc.prems by simp
  have eq: "int i + - 1 = int (i - 1)" using i0 by simp
  have ih: "insertAt_loop s d True (int j) m (Some (as ! (i - 1))) (int i + - 1) =
        insertAt_loop s d True (int j) m (Some (as ! j)) (int j)"
    unfolding eq
  proof (rule Suc.hyps(1))
    show "k = i - 1 - j" using Suc.hyps(2) by linarith
    show "j \<le> i - 1" using Suc.hyps(2) by linarith
    show "i - 1 < length as" using Suc.prems by linarith
  qed
  have ne: "int i \<noteq> int j" using Suc.hyps(2) by linarith
  show ?case using pv ih ne
    by (subst insertAt_loop.simps) (simp del: of_nat_diff)
qed

lemma removeAt_loop_fwd:
  assumes "dll (heap s) p as n" "j < length as"
  shows "i \<le> j \<Longrightarrow>
    removeAt_loop s d False (int j) (Some (as ! i)) (int i) =
    removeAt_loop s d False (int j) (Some (as ! j)) (int j)"
proof (induction "j - i" arbitrary: i)
  case 0
  then show ?case by simp
next
  case (Suc k)
  have "Suc i < length as" using Suc.hyps(2) assms(2) by linarith
  then have nx: "next (heap s (as ! i)) = Some (as ! Suc i)"
    using dll_nth_next[OF assms(1), of i] by simp
  have eq: "int i + 1 = int (Suc i)" by simp
  have ih: "removeAt_loop s d False (int j) (Some (as ! Suc i)) (int i + 1) =
        removeAt_loop s d False (int j) (Some (as ! j)) (int j)"
    unfolding eq
  proof (rule Suc.hyps(1))
    show "k = j - Suc i" using Suc.hyps(2) by linarith
    show "Suc i \<le> j" using Suc.hyps(2) by linarith
  qed
  have ne: "int i \<noteq> int j" using Suc.hyps(2) by linarith
  show ?case using nx ih ne
    by (subst removeAt_loop.simps) (simp del: of_nat_Suc)
qed

lemma removeAt_loop_bwd:
  assumes "dll (heap s) p as n" "i < length as"
  shows "j \<le> i \<Longrightarrow>
    removeAt_loop s d True (int j) (Some (as ! i)) (int i) =
    removeAt_loop s d True (int j) (Some (as ! j)) (int j)"
  using assms(2)
proof (induction "i - j" arbitrary: i)
  case 0
  then show ?case by simp
next
  case (Suc k)
  have i0: "i \<noteq> 0" using Suc.hyps(2) by linarith
  then have pv: "prev (heap s (as ! i)) = Some (as ! (i - 1))"
    using dll_nth_prev[OF assms(1), of i] Suc.prems by simp
  have eq: "int i + - 1 = int (i - 1)" using i0 by simp
  have ih: "removeAt_loop s d True (int j) (Some (as ! (i - 1))) (int i + - 1) =
        removeAt_loop s d True (int j) (Some (as ! j)) (int j)"
    unfolding eq
  proof (rule Suc.hyps(1))
    show "k = i - 1 - j" using Suc.hyps(2) by linarith
    show "j \<le> i - 1" using Suc.hyps(2) by linarith
    show "i - 1 < length as" using Suc.prems by linarith
  qed
  have ne: "int i \<noteq> int j" using Suc.hyps(2) by linarith
  show ?case using pv ih ne
    by (subst removeAt_loop.simps) (simp del: of_nat_diff)
qed

text \<open>Splitting the node list at an index.\<close>

lemma dll_split:
  assumes "dll h p as n" "0 < j" "j < length as"
  shows "dll h p (take j as) (Some (as ! j)) \<and> dll h (Some (as ! (j - 1))) (drop j as) n"
proof -
  have "as = take j as @ drop j as" by simp
  moreover have t: "take j as \<noteq> []" and d: "drop j as \<noteq> []" using assms by auto
  moreover have "hd (drop j as) = as ! j" using assms by (simp add: hd_drop_conv_nth)
  moreover have "last (take j as) = as ! (j - 1)"
  proof -
    have "length (take j as) = j" using assms by simp
    then have "last (take j as) = take j as ! (j - 1)" using t by (simp add: last_conv_nth)
    then show ?thesis using assms by simp
  qed
  ultimately show ?thesis using dll_append[OF t d, of h p n] assms(1) by simp
qed

section \<open>Splicing a node in\<close>

lemma insertAt_loop_here:
  "prev (heap s c) = Some p \<Longrightarrow>
   insertAt_loop s d pm idx m (Some c) idx =
     Some (Inr (set_prev c (Some m) (set_next m (Some c) (set_prev m (Some p) (set_next p (Some m) s))),
                d\<lparr>length_dq := length_dq d + 1\<rparr>, True))"
  by (subst insertAt_loop.simps) (simp add: Let_def)

lemma insertAt_loop_seek:
  assumes "dll (heap s) p as n" "j < length as"
  shows "insertAt_loop s d pm (int j) m (Some (if pm then last as else hd as))
           (if pm then int (length as) - 1 else 0) =
         insertAt_loop s d pm (int j) m (Some (as ! j)) (int j)"
proof -
  have ne: "as \<noteq> []" using assms by auto
  have a: "last as = as ! (length as - 1)" by (simp add: last_conv_nth ne)
  have b: "int (length as) - 1 = int (length as - 1)" using ne by (cases as) auto
  have c: "hd as = as ! 0" by (simp add: hd_conv_nth ne)
  have e: "(0::int) = int 0" by simp
  show ?thesis
  proof (cases pm)
    case True
    then have pm: "pm = True" by simp
    show ?thesis unfolding pm if_True a b
      by (rule insertAt_loop_bwd[OF assms(1)]) (use assms in auto)
  next
    case False
    then have pm: "pm = False" by simp
    show ?thesis unfolding pm if_False c
      by (subst e) (rule insertAt_loop_fwd[OF assms], simp)
  qed
qed

lemma removeAt_loop_seek:
  assumes "dll (heap s) p as n" "j < length as"
  shows "removeAt_loop s d pm (int j) (Some (if pm then last as else hd as))
           (if pm then int (length as) - 1 else 0) =
         removeAt_loop s d pm (int j) (Some (as ! j)) (int j)"
proof -
  have ne: "as \<noteq> []" using assms by auto
  have a: "last as = as ! (length as - 1)" by (simp add: last_conv_nth ne)
  have b: "int (length as) - 1 = int (length as - 1)" using ne by (cases as) auto
  have c: "hd as = as ! 0" by (simp add: hd_conv_nth ne)
  have e: "(0::int) = int 0" by simp
  show ?thesis
  proof (cases pm)
    case True
    then have pm: "pm = True" by simp
    show ?thesis unfolding pm if_True a b
      by (rule removeAt_loop_bwd[OF assms(1)]) (use assms in auto)
  next
    case False
    then have pm: "pm = False" by simp
    show ?thesis unfolding pm if_False c
      by (subst e) (rule removeAt_loop_fwd[OF assms], simp)
  qed
qed

lemma splice_in:
  assumes dl: "dll h None as None" and dist: "distinct as" and j: "0 < j" "j < length as"
    and m: "m \<notin> set as"
    and hm: "prev (h' m) = Some (as ! (j - 1))" "next (h' m) = Some (as ! j)"
    and hp: "h' (as ! (j - 1)) = (h (as ! (j - 1)))\<lparr>next := Some m\<rparr>"
    and hc: "h' (as ! j) = (h (as ! j))\<lparr>prev := Some m\<rparr>"
    and ho: "\<forall>a. a \<noteq> m \<and> a \<noteq> as ! (j - 1) \<and> a \<noteq> as ! j \<longrightarrow> h' a = h a"
  shows "dll h' None (take j as @ m # drop j as) None"
proof -
  define xs where "xs = take j as"
  define ys where "ys = drop j as"
  define c where "c = as ! j"
  define p where "p = as ! (j - 1)"
  have as: "as = xs @ ys" by (simp add: xs_def ys_def)
  have xne: "xs \<noteq> []" and yne: "ys \<noteq> []" using j by (auto simp: xs_def ys_def)
  have sp: "dll h None xs (Some c)" "dll h (Some p) ys None"
    using dll_split[OF dl j] by (simp_all add: xs_def ys_def c_def p_def)
  have hy: "hd ys = c" using j by (simp add: ys_def c_def hd_drop_conv_nth)
  have lx: "last xs = p"
  proof -
    have "length xs = j" using j by (simp add: xs_def)
    then have "last xs = xs ! (j - 1)" using xne by (simp add: last_conv_nth)
    then show ?thesis using j by (simp add: xs_def p_def)
  qed
  have cy: "c \<in> set ys" using hy yne by (metis hd_in_set)
  have px: "p \<in> set xs" using lx xne by (metis last_in_set)
  have dx: "distinct xs" and dy: "distinct ys" and disj: "set xs \<inter> set ys = {}"
    using dist unfolding as by auto
  have cx: "c \<notin> set xs" and py: "p \<notin> set ys" using cy px disj by auto
  have mx: "m \<notin> set xs" and my: "m \<notin> set ys" using m unfolding as by auto
  have h'x: "h' a = (if a = p then (h a)\<lparr>next := Some m\<rparr> else h a)" if "a \<in> set xs" for a
    using that hp ho cx mx by (auto simp: p_def c_def)
  have h'y: "h' a = (if a = c then (h a)\<lparr>prev := Some m\<rparr> else h a)" if "a \<in> set ys" for a
    using that hc ho py my by (auto simp: p_def c_def)
  have d1: "dll h' None xs (Some m)"
    by (rule dll_relink[OF sp(1) xne dx]) (use h'x lx dll_ends[OF sp(1) xne] in auto)
  have d2: "dll h' (Some m) ys None"
    by (rule dll_relink[OF sp(2) yne dy]) (use h'y hy dll_ends[OF sp(2) yne] in auto)
  have d3: "dll h' (Some p) (m # ys) None"
    using d2 hm yne hy by (cases ys) (auto simp: p_def c_def)
  have "dll h' None (xs @ (m # ys)) None"
    using dll_append[of xs "m # ys" h' None None] xne d1 d3 lx by simp
  then show ?thesis by (simp add: xs_def ys_def)
qed

section \<open>insertAt\<close>

lemma insertAt_spec:
  assumes "rep s d as" "0 \<le> i" "i < length_dq d"
  shows "\<exists>s' d' as'. insertAt s d v i = Some (Inr (s', d', True)) \<and> rep s' d' as' \<and>
           frame s as s' as' \<and> length_dq d' = length_dq d + 1 \<and>
           elems s' d' as' =
             take (nat i) (elems s d as) @ val (Node v) # drop (nat i) (elems s d as)"
proof (cases "i = 0")
  case True
  obtain as' where "rep (fst (pushLeft s d v)) (snd (pushLeft s d v)) as'"
    "elems (fst (pushLeft s d v)) (snd (pushLeft s d v)) as' =
       (if length_dq d = 0 then v else val (Node v)) # elems s d as"
    "frame s as (fst (pushLeft s d v)) as'"
    "length_dq (snd (pushLeft s d v)) = length_dq d + 1"
    using pushLeft_spec[OF assms(1), of v] by blast
  moreover have "insertAt s d v i = Some (Inr (fst (pushLeft s d v), snd (pushLeft s d v), True))"
    using True assms(3) by (simp add: insertAt_def split: prod.splits)
  moreover have "length_dq d \<noteq> 0" using True assms(3) by simp
  ultimately show ?thesis using True by auto
next
  case False
  have ne: "as \<noteq> []" and dist: "distinct as" and dl: "dll (heap s) None as None"
    and tl: "tail d = last as" and hd: "head d = hd as" and al: "\<forall>a\<in>set as. a < fresh s"
    and len: "length_dq d = int (length as)"
    using assms by (auto simp: rep_def split: if_splits)
  have l0: "length_dq d \<noteq> 0" using assms by linarith
  define j where "j = nat i"
  have j: "i = int j" "0 < j" "j < length as" using assms len False by (auto simp: j_def)
  define m where "m = fresh s"
  define s1 where "s1 = fst (new_Node s v)"
  define pm where "pm = (i > length_dq d div 2)"
  define c where "c = as ! j"
  define p where "p = as ! (j - 1)"
  have m: "m \<notin> set as" using al by (auto simp: m_def)
  have cs: "c \<in> set as" and ps: "p \<in> set as" using j by (auto simp: c_def p_def)
  have pc: "p \<noteq> c" using dist j by (auto simp: c_def p_def nth_eq_iff_index_eq)
  have mc: "m \<noteq> c" and mp: "m \<noteq> p" using m cs ps by auto
  have dl1: "dll (heap s1) None as None"
    using dl m dll_cong[of as "heap s1" "heap s" None None] by (auto simp: s1_def m_def)
  have pv: "prev (heap s1 c) = Some p"
    using dll_nth_prev[OF dl1, of j] j by (simp add: c_def p_def)
  define s4 where "s4 = set_prev c (Some m) (set_next m (Some c) (set_prev m (Some p) (set_next p (Some m) s1)))"
  define d' where "d' = d\<lparr>length_dq := length_dq d + 1\<rparr>"
  define as' where "as' = take j as @ m # drop j as"
  have nn: "new_Node s v = (s1, m)" by (simp add: new_Node_def s1_def m_def)
  have loop: "insertAt_loop s1 d pm (int j) m (Some (if pm then tail d else head d))
               (if pm then length_dq d - 1 else 0) = Some (Inr (s4, d', True))"
    unfolding hd tl len
    using insertAt_loop_seek[OF dl1 j(3), of d pm m] insertAt_loop_here[OF pv, of d pm "int j" m]
    by (simp add: s4_def d'_def len c_def)
  have run: "insertAt s d v i = Some (Inr (s4, d', True))"
    unfolding insertAt_def Let_def nn
    using False assms(2,3) loop by (simp add: pm_def j(1))
  have h4m: "heap s4 m = \<lparr>val = val (Node v), prev = Some p, next = Some c\<rparr>"
    using mc mp by (simp add: s4_def s1_def m_def Node_def)
  have h4p: "heap s4 p = (heap s p)\<lparr>next := Some m\<rparr>"
    using mp pc by (simp add: s4_def s1_def m_def[symmetric])
  have h4c: "heap s4 c = (heap s c)\<lparr>prev := Some m\<rparr>"
    using mc pc by (simp add: s4_def s1_def m_def[symmetric])
  have h4o: "\<forall>a. a \<noteq> m \<and> a \<noteq> p \<and> a \<noteq> c \<longrightarrow> heap s4 a = heap s a"
    by (simp add: s4_def s1_def m_def[symmetric])
  have fr: "fresh s4 = Suc m" by (simp add: s4_def s1_def m_def)
  have d4: "dll (heap s4) None as' None"
    unfolding as'_def
    by (rule splice_in[OF dl dist j(2,3) m])
       (use h4m h4p h4c h4o in \<open>auto simp: c_def p_def\<close>)
  have vals: "val (heap s4 a) = val (heap s a)" if "a \<in> set as" for a
    using that h4p h4c h4o m by (cases "a = p"; cases "a = c") auto
  define xs where "xs = take j as"
  define ys where "ys = drop j as"
  have as: "as = xs @ ys" by (simp add: xs_def ys_def)
  have xne: "xs \<noteq> []" and yne: "ys \<noteq> []" using j by (auto simp: xs_def ys_def)
  have as': "as' = xs @ m # ys" by (simp add: as'_def xs_def ys_def)
  have hd': "hd as' = hd as" using xne by (simp add: as' as)
  have tl': "last as' = last as" using yne by (simp add: as' as)
  have sas: "set as' = insert m (set as)" by (auto simp: as' as)
  have dist': "distinct as'" using dist m unfolding as' as by auto
  have la': "length as' = Suc (length as)" by (simp add: as' as)
  have al': "\<forall>a\<in>set as'. a < fresh s4" using al fr unfolding sas by (auto simp: m_def)
  have r: "rep s4 d' as'"
    unfolding rep_def using d4 dist' hd' tl' hd tl la' len l0 al'
    by (simp add: d'_def as')
  have f: "frame s as s4 as'"
    unfolding frame_def
  proof (intro conjI allI impI ballI)
    show "fresh s \<le> fresh s4" by (simp add: fr m_def)
  next
    fix a assume a: "a < fresh s \<and> a \<notin> set as"
    then have "a \<noteq> m" "a \<noteq> p" "a \<noteq> c" using cs ps by (auto simp: m_def)
    then show "heap s4 a = heap s a" using h4o by simp
  next
    fix a assume "a \<in> set as'"
    then show "a \<in> set as \<or> fresh s \<le> a" unfolding sas by (auto simp: m_def)
  qed
  have el: "elems s4 d' as' = take j (elems s d as) @ val (Node v) # drop j (elems s d as)"
  proof -
    have "map (\<lambda>a. val (heap s4 a)) xs = map (\<lambda>a. val (heap s a)) xs"
      by (rule map_cong) (auto simp: vals as)
    moreover have "map (\<lambda>a. val (heap s4 a)) ys = map (\<lambda>a. val (heap s a)) ys"
      by (rule map_cong) (auto simp: vals as)
    moreover have "take j (map (\<lambda>a. val (heap s a)) as) = map (\<lambda>a. val (heap s a)) xs"
      "drop j (map (\<lambda>a. val (heap s a)) as) = map (\<lambda>a. val (heap s a)) ys"
      by (simp_all add: xs_def ys_def take_map drop_map)
    ultimately show ?thesis using l0 len h4m
      by (simp add: elems_def d'_def as')
  qed
  have e: "nat i = j" by (simp add: j_def)
  have l: "length_dq d' = length_dq d + 1" by (simp add: d'_def)
  show ?thesis unfolding e using run r f el l by blast
qed

section \<open>removeAt\<close>

lemma removeAt_loop_here:
  "prev (heap s c) = Some p \<Longrightarrow> next (heap s c) = Some n \<Longrightarrow>
   removeAt_loop s d pm idx (Some c) idx =
     Some (Inr (set_prev n (Some p) (set_next p (Some n) s),
                d\<lparr>length_dq := length_dq d - 1\<rparr>,
                val (heap (set_prev n (Some p) (set_next p (Some n) s)) c)))"
  by (subst removeAt_loop.simps) (simp add: Let_def)

lemma splice_out:
  assumes dl: "dll h None as None" and dist: "distinct as" and j: "0 < j" "Suc j < length as"
    and hp: "h' (as ! (j - 1)) = (h (as ! (j - 1)))\<lparr>next := Some (as ! Suc j)\<rparr>"
    and hn: "h' (as ! Suc j) = (h (as ! Suc j))\<lparr>prev := Some (as ! (j - 1))\<rparr>"
    and ho: "\<forall>a. a \<noteq> as ! (j - 1) \<and> a \<noteq> as ! Suc j \<longrightarrow> h' a = h a"
  shows "dll h' None (take j as @ drop (Suc j) as) None"
proof -
  define xs where "xs = take j as"
  define ys where "ys = drop (Suc j) as"
  define c where "c = as ! j"
  define n where "n = as ! Suc j"
  define p where "p = as ! (j - 1)"
  have as: "as = xs @ c # ys"
    using j by (simp add: xs_def ys_def c_def id_take_nth_drop[symmetric])
  have xne: "xs \<noteq> []" and yne: "ys \<noteq> []" using j by (auto simp: xs_def ys_def)
  have jl: "j < length as" using j by simp
  have sp: "dll h None xs (Some c)" "dll h (Some p) (drop j as) None"
    using dll_split[OF dl j(1) jl] by (simp_all add: xs_def c_def p_def)
  have "drop j as = c # ys" using jl by (simp add: c_def ys_def Cons_nth_drop_Suc)
  then have sy: "dll h (Some c) ys None" using sp(2) dll_step[of h "Some p" c ys None] by simp
  have hy: "hd ys = n" using j by (simp add: ys_def n_def hd_drop_conv_nth)
  have lx: "last xs = p"
  proof -
    have "length xs = j" using j by (simp add: xs_def)
    then have "last xs = xs ! (j - 1)" using xne by (simp add: last_conv_nth)
    then show ?thesis using j by (simp add: xs_def p_def)
  qed
  have ny: "n \<in> set ys" using hy yne by (metis hd_in_set)
  have px: "p \<in> set xs" using lx xne by (metis last_in_set)
  have dx: "distinct xs" and dy: "distinct ys" and disj: "set xs \<inter> set ys = {}"
    using dist unfolding as by auto
  have nx: "n \<notin> set xs" and py: "p \<notin> set ys" using ny px disj by auto
  have ho': "h' a = h a" if "a \<noteq> p" "a \<noteq> n" for a
    using that ho by (simp add: p_def n_def)
  have h'x: "h' a = (if a = p then (h a)\<lparr>next := Some n\<rparr> else h a)" if "a \<in> set xs" for a
  proof -
    have "a \<noteq> n" using that nx by auto
    then show ?thesis using hp ho'[of a] by (auto simp: p_def n_def)
  qed
  have h'y: "h' a = (if a = n then (h a)\<lparr>prev := Some p\<rparr> else h a)" if "a \<in> set ys" for a
  proof -
    have "a \<noteq> p" using that py by auto
    then show ?thesis using hn ho'[of a] by (auto simp: p_def n_def)
  qed
  have d1: "dll h' None xs (Some n)"
    by (rule dll_relink[OF sp(1) xne dx]) (use h'x lx dll_ends[OF sp(1) xne] in auto)
  have d2: "dll h' (Some p) ys None"
    by (rule dll_relink[OF sy yne dy]) (use h'y hy dll_ends[OF sy yne] in auto)
  have "dll h' None (xs @ ys) None"
    using dll_append[OF xne yne, of h' None None] d1 d2 lx hy by simp
  then show ?thesis by (simp add: xs_def ys_def)
qed

lemma removeAt_spec:
  assumes "rep s d as" "0 \<le> i" "i < length_dq d"
  shows "\<exists>s' d' as'. removeAt s d i = Some (Inr (s', d', elems s d as ! nat i)) \<and>
           rep s' d' as' \<and> frame s as s' as' \<and> length_dq d' = length_dq d - 1 \<and>
           elems s' d' as' = take (nat i) (elems s d as) @ drop (Suc (nat i)) (elems s d as)"
proof -
  have ne: "as \<noteq> []" and dist: "distinct as" and dl: "dll (heap s) None as None"
    and tl: "tail d = last as" and hd: "head d = hd as" and al: "\<forall>a\<in>set as. a < fresh s"
    and len: "length_dq d = int (length as)"
    using assms by (auto simp: rep_def split: if_splits)
  have l0: "length_dq d \<noteq> 0" using assms by linarith
  define es where "es = elems s d as"
  have les: "length es = length as" using l0 by (simp add: es_def elems_def)
  have es: "es = map (\<lambda>a. val (heap s a)) as" using l0 by (simp add: es_def elems_def)
  have ene: "es \<noteq> []" using les ne by auto
  define j where "j = nat i"
  have j: "i = int j" "j < length as" using assms len by (auto simp: j_def)
  consider (first) "i = 0" | (last) "i \<noteq> 0" "i = length_dq d - 1"
    | (inner) "i \<noteq> 0" "i \<noteq> length_dq d - 1" by blast
  then show ?thesis
  proof cases
    case first
    obtain s' d' r as' where p: "popleft s d = Inr (s', d', r)" "rep s' d' as'" "frame s as s' as'"
      "r = hd es" "elems s' d' as' = tl es" "length_dq d' = length_dq d - 1"
      using popleft_spec[OF assms(1)] l0 unfolding es_def by auto
    have "removeAt s d i = Some (Inr (s', d', es ! nat i))"
      using first assms(3) p(1,4) ene by (simp add: removeAt_def hd_conv_nth)
    moreover have "tl es = take (nat i) es @ drop (Suc (nat i)) es"
      using first by (simp add: drop_Suc)
    ultimately show ?thesis using p unfolding es_def[symmetric] by auto
  next
    case last
    obtain s' d' r as' where p: "pop s d = Inr (s', d', r)" "rep s' d' as'" "frame s as s' as'"
      "r = List.last es" "elems s' d' as' = butlast es" "length_dq d' = length_dq d - 1"
      using pop_spec[OF assms(1)] l0 unfolding es_def by auto
    have n: "nat i = length es - 1" using last len les by simp
    have "removeAt s d i = Some (Inr (s', d', es ! nat i))"
      using last assms(2,3) p(1,4) ene n by (simp add: removeAt_def last_conv_nth)
    moreover have "butlast es = take (nat i) es @ drop (Suc (nat i)) es"
      using ene n by (simp add: butlast_conv_take)
    ultimately show ?thesis using p unfolding es_def[symmetric] by auto
  next
    case inner
    have j2: "0 < j" "Suc j < length as" using inner j len by auto
    define pm where "pm = (i > length_dq d div 2)"
    define c where "c = as ! j"
    define p where "p = as ! (j - 1)"
    define n where "n = as ! Suc j"
    have cs: "c \<in> set as" and ps: "p \<in> set as" and ns: "n \<in> set as"
      using j2 by (auto simp: c_def p_def n_def)
    have pc: "p \<noteq> c" and pn: "p \<noteq> n" and cn: "c \<noteq> n"
      using dist j2 by (auto simp: c_def p_def n_def nth_eq_iff_index_eq)
    have pv: "prev (heap s c) = Some p" and nx: "next (heap s c) = Some n"
      using dll_nth_prev[OF dl, of j] dll_nth_next[OF dl, of j] j2
      by (simp_all add: c_def p_def n_def)
    define s2 where "s2 = set_prev n (Some p) (set_next p (Some n) s)"
    define d' where "d' = d\<lparr>length_dq := length_dq d - 1\<rparr>"
    define as' where "as' = take j as @ drop (Suc j) as"
    have vc: "val (heap s2 c) = es ! j" using pc cn j by (simp add: s2_def es c_def)
    have loop: "removeAt_loop s d pm (int j) (Some (if pm then tail d else head d))
               (if pm then length_dq d - 1 else 0) = Some (Inr (s2, d', es ! j))"
      unfolding hd tl len
      using removeAt_loop_seek[OF dl j(2), of d pm] removeAt_loop_here[OF pv nx, of d pm "int j"] vc
      by (simp add: s2_def d'_def len c_def)
    have run: "removeAt s d i = Some (Inr (s2, d', es ! j))"
      unfolding removeAt_def Let_def
      using inner assms(2,3) loop by (simp add: pm_def j(1))
    have h2p: "heap s2 p = (heap s p)\<lparr>next := Some n\<rparr>"
      using pn by (simp add: s2_def)
    have h2n: "heap s2 n = (heap s n)\<lparr>prev := Some p\<rparr>"
      using pn by (simp add: s2_def)
    have h2o: "\<forall>a. a \<noteq> p \<and> a \<noteq> n \<longrightarrow> heap s2 a = heap s a"
      by (simp add: s2_def)
    have fr: "fresh s2 = fresh s" by (simp add: s2_def)
    have d4: "dll (heap s2) None as' None"
      unfolding as'_def
      by (rule splice_out[OF dl dist j2])
         (use h2p h2n h2o in \<open>auto simp: n_def p_def\<close>)
    have vals: "val (heap s2 a) = val (heap s a)" for a
      using h2p h2n h2o by (cases "a = p"; cases "a = n") auto
    define xs where "xs = take j as"
    define ys where "ys = drop (Suc j) as"
    have as: "as = xs @ c # ys"
      using j by (simp add: xs_def ys_def c_def id_take_nth_drop[symmetric])
    have xne: "xs \<noteq> []" and yne: "ys \<noteq> []" using j2 by (auto simp: xs_def ys_def)
    have as': "as' = xs @ ys" by (simp add: as'_def xs_def ys_def)
    have hd': "hd as' = hd as" using xne by (simp add: as' as)
    have tl': "last as' = last as" using yne by (simp add: as' as)
    have sas: "set as' \<subseteq> set as" by (auto simp: as' as)
    have dist': "distinct as'" using dist unfolding as' as by auto
    have la': "int (length as') = int (length as) - 1" by (simp add: as' as)
    have al': "\<forall>a\<in>set as'. a < fresh s2" using al fr sas by auto
    have l0': "int (length as) - 1 \<noteq> 0" using j2 by linarith
    have r: "rep s2 d' as'"
      unfolding rep_def using d4 dist' hd' tl' hd tl la' len l0' al' xne
      by (simp add: d'_def as')
    have f: "frame s as s2 as'"
      unfolding frame_def
    proof (intro conjI allI impI ballI)
      show "fresh s \<le> fresh s2" by (simp add: fr)
    next
      fix a assume a: "a < fresh s \<and> a \<notin> set as"
      then have "a \<noteq> p" "a \<noteq> n" using ns ps by auto
      then show "heap s2 a = heap s a" using h2o by simp
    next
      fix a assume "a \<in> set as'"
      then show "a \<in> set as \<or> fresh s \<le> a" using sas by auto
    qed
    have el: "elems s2 d' as' = take j es @ drop (Suc j) es"
    proof -
      have "take j es = map (\<lambda>a. val (heap s a)) xs"
        "drop (Suc j) es = map (\<lambda>a. val (heap s a)) ys"
        by (simp_all add: xs_def ys_def es take_map drop_map)
      then show ?thesis using l0' len
        by (simp add: elems_def d'_def as' vals)
    qed
    have e: "nat i = j" by (simp add: j_def)
    have l: "length_dq d' = length_dq d - 1" by (simp add: d'_def)
    show ?thesis unfolding e es_def[symmetric] using run r f el l by blast
  qed
qed

section \<open>reverse and the rotation loops\<close>

lemma reverse_loop_dll:
  "dll (heap s) p todo None \<Longrightarrow> distinct todo \<Longrightarrow>
   reverse_loop s (first todo) =
     Some (s\<lparr>heap := (\<lambda>a. if a \<in> set todo then swap_links (heap s a) else heap s a)\<rparr>)"
proof (induction todo arbitrary: s p)
  case Nil
  then show ?case by (subst reverse_loop.simps) simp
next
  case (Cons a bs)
  define s2 where "s2 = set_prev a (next (heap s a)) (set_next a (prev (heap s a)) s)"
  have nx: "next (heap s a) = first bs" using dll_step[OF Cons.prems(1)] by (cases bs) auto
  have s2: "s2 = s\<lparr>heap := (heap s)(a := swap_links (heap s a))\<rparr>"
    by (simp add: s2_def set_prev_def set_next_def swap_links_def)
  have a: "a \<notin> set bs" and db: "distinct bs" using Cons.prems(2) by auto
  have "dll (heap s) (Some a) bs None" using dll_step[OF Cons.prems(1)] by simp
  then have "dll (heap s2) (Some a) bs None"
    using a dll_cong[of bs "heap s2" "heap s" "Some a" None] by (auto simp: s2)
  then have ih: "reverse_loop s2 (first bs) =
     Some (s2\<lparr>heap := (\<lambda>x. if x \<in> set bs then swap_links (heap s2 x) else heap s2 x)\<rparr>)"
    using Cons.IH db by blast
  have "(\<lambda>x. if x \<in> set bs then swap_links (heap s2 x) else heap s2 x) =
        (\<lambda>x. if x \<in> set (a # bs) then swap_links (heap s x) else heap s x)"
    using a by (auto simp: s2 fun_eq_iff)
  then have "s2\<lparr>heap := (\<lambda>x. if x \<in> set bs then swap_links (heap s2 x) else heap s2 x)\<rparr> =
        s\<lparr>heap := (\<lambda>x. if x \<in> set (a # bs) then swap_links (heap s x) else heap s x)\<rparr>"
    by (simp add: s2)
  with ih nx have ih': "reverse_loop s2 (next (heap s a)) =
        Some (s\<lparr>heap := (\<lambda>x. if x \<in> set (a # bs) then swap_links (heap s x) else heap s x)\<rparr>)"
    by simp
  show ?case
    by (subst reverse_loop.simps) (simp add: Let_def s2_def[symmetric] ih' del: set_simps)
qed

lemma reverse_spec:
  assumes "rep s d as"
  shows "\<exists>s' d'. reverse s d = Some (s', d') \<and> rep s' d' (rev as) \<and> frame s as s' (rev as) \<and>
           elems s' d' (rev as) = rev (elems s d as) \<and> length_dq d' = length_dq d \<and>
           (length as = 1 \<longrightarrow> s' = s \<and> d' = d)"
proof -
  have ne: "as \<noteq> []" and dist: "distinct as" and dl: "dll (heap s) None as None"
    and tl: "tail d = last as" and hd: "head d = hd as" and al: "\<forall>a\<in>set as. a < fresh s"
    using assms by (auto simp: rep_def)
  define s' where "s' = s\<lparr>heap := (\<lambda>a. if a \<in> set as then swap_links (heap s a) else heap s a)\<rparr>"
  define d' where "d' = d\<lparr>head := tail d, tail := head d\<rparr>"
  have f: "first as = Some (head d)" using ne hd by (cases as) auto
  have run: "reverse s d = Some (s', d')"
    using reverse_loop_dll[OF dl dist] f by (simp add: reverse_def Let_def s'_def d'_def)
  have d1: "dll (heap s') None (rev as) None"
    by (rule dll_rev[OF dl]) (simp add: s'_def swap_links_def)
  have hl: "length as = Suc 0 \<longrightarrow> last as = hd as" by (cases as) auto
  have r: "rep s' d' (rev as)"
    using assms d1 ne hl by (auto simp: rep_def d'_def s'_def hd_rev last_rev swap_links_def)
  have fr: "frame s as s' (rev as)" by (simp add: frame_def s'_def)
  have el: "elems s' d' (rev as) = rev (elems s d as)"
    by (simp add: elems_def d'_def s'_def swap_links_def rev_map)
  have one: "s' = s \<and> d' = d" if la: "length as = 1"
  proof -
    obtain a where as: "as = [a]" using la by (cases as) auto
    have "prev (heap s a) = None" "next (heap s a) = None" using dl as by auto
    then have "swap_links (heap s a) = heap s a" by (simp add: swap_links_def)
    then have "(\<lambda>x. if x \<in> set as then swap_links (heap s x) else heap s x) = heap s"
      by (auto simp: as fun_eq_iff)
    then have "s' = s" by (simp add: s'_def)
    moreover have "d' = d" using hd tl as by (simp add: d'_def)
    ultimately show ?thesis by simp
  qed
  have l: "length_dq d' = length_dq d" by (simp add: d'_def)
  show ?thesis using run r fr el l one by blast
qed

lemma val_Node_defined: "v \<noteq> Undefined \<Longrightarrow> val (Node v) = v"
  by (simp add: val_Node)

lemma rotate_right1_defined:
  assumes "Undefined \<notin> set xs"
  shows "rotate_right1 xs = (if xs = [] then [] else last xs # butlast xs)"
proof (cases "length xs \<le> 1")
  case True
  then show ?thesis by (cases xs) (auto simp: rotate_right1_def)
next
  case False
  then have "xs \<noteq> []" by auto
  then have "last xs \<noteq> Undefined" using assms last_in_set by metis
  then show ?thesis using False \<open>xs \<noteq> []\<close> by (simp add: rotate_right1_def val_Node_defined)
qed

lemma rotate_left1_defined:
  assumes "Undefined \<notin> set xs"
  shows "rotate_left1 xs = rotate1 xs"
proof (cases xs)
  case Nil
  then show ?thesis by (simp add: rotate_left1_def)
next
  case (Cons x ys)
  then have "x \<noteq> Undefined" using assms by auto
  then show ?thesis using Cons by (cases ys) (simp_all add: rotate_left1_def val_Node_defined)
qed

lemma set_rotate_right1: "Undefined \<notin> set xs \<Longrightarrow> set (rotate_right1 xs) = set xs"
proof -
  assume u: "Undefined \<notin> set xs"
  show ?thesis
  proof (cases "xs = []")
    case True
    then show ?thesis by (simp add: rotate_right1_def)
  next
    case False
    have "set (last xs # butlast xs) = set (butlast xs @ [last xs])" by simp
    also have "\<dots> = set xs" by (simp only: append_butlast_last_id[OF False])
    finally show ?thesis using False by (simp add: rotate_right1_defined[OF u] del: set_simps)
  qed
qed

lemma set_rotate_left1: "Undefined \<notin> set xs \<Longrightarrow> set (rotate_left1 xs) = set xs"
  by (simp add: rotate_left1_defined)

lemma set_funpow_rotate_right1:
  "Undefined \<notin> set xs \<Longrightarrow> set ((rotate_right1 ^^ n) xs) = set xs"
  by (induction n) (simp_all add: set_rotate_right1)

lemma set_funpow_rotate_left1:
  "Undefined \<notin> set xs \<Longrightarrow> set ((rotate_left1 ^^ n) xs) = set xs"
  by (induction n) (simp_all add: set_rotate_left1)

lemma rotate_left1_right1: "Undefined \<notin> set xs \<Longrightarrow> rotate_left1 (rotate_right1 xs) = xs"
  by (simp add: rotate_left1_defined set_rotate_right1) (simp add: rotate_right1_defined)

lemma rotate_right1_left1: "Undefined \<notin> set xs \<Longrightarrow> rotate_right1 (rotate_left1 xs) = xs"
  by (simp add: rotate_right1_defined set_rotate_left1) (cases xs; simp add: rotate_left1_defined)

lemma rotate_left_right:
  "Undefined \<notin> set xs \<Longrightarrow> (rotate_left1 ^^ n) ((rotate_right1 ^^ n) xs) = xs"
proof (induction n)
  case 0
  then show ?case by simp
next
  case (Suc n)
  define ys where "ys = (rotate_right1 ^^ n) xs"
  have u: "Undefined \<notin> set ys" using Suc.prems by (simp add: ys_def set_funpow_rotate_right1)
  have "(rotate_left1 ^^ Suc n) ((rotate_right1 ^^ Suc n) xs) =
        (rotate_left1 ^^ n) (rotate_left1 (rotate_right1 ys))"
    by (simp add: funpow_swap1 ys_def)
  then show ?case using Suc u by (simp add: rotate_left1_right1 ys_def)
qed

lemma rotate_right_left:
  "Undefined \<notin> set xs \<Longrightarrow> (rotate_right1 ^^ n) ((rotate_left1 ^^ n) xs) = xs"
proof (induction n)
  case 0
  then show ?case by simp
next
  case (Suc n)
  define ys where "ys = (rotate_left1 ^^ n) xs"
  have u: "Undefined \<notin> set ys" using Suc.prems by (simp add: ys_def set_funpow_rotate_left1)
  have "(rotate_right1 ^^ Suc n) ((rotate_left1 ^^ Suc n) xs) =
        (rotate_right1 ^^ n) (rotate_right1 (rotate_left1 ys))"
    by (simp add: funpow_swap1 ys_def)
  then show ?case using Suc u by (simp add: rotate_right1_left1 ys_def)
qed

lemma rotate_right_spec:
  "rep s d as \<Longrightarrow> length_dq d \<noteq> 0 \<Longrightarrow>
   \<exists>s' d' as'. rotate_right n s d = Inr (s', d') \<and> rep s' d' as' \<and> frame s as s' as' \<and>
     length_dq d' = length_dq d \<and> elems s' d' as' = (rotate_right1 ^^ n) (elems s d as)"
proof (induction n arbitrary: s d as)
  case 0
  then show ?case using frame_refl by auto
next
  case (Suc n)
  define es where "es = elems s d as"
  have ene: "es \<noteq> []" using Suc.prems by (auto simp: es_def elems_def rep_def)
  have les: "int (length es) = length_dq d"
    using Suc.prems by (auto simp: es_def elems_def rep_def)
  obtain s1 d1 r as1 where p: "pop s d = Inr (s1, d1, r)" "rep s1 d1 as1" "frame s as s1 as1"
      "r = last es" "elems s1 d1 as1 = butlast es" "length_dq d1 = length_dq d - 1"
    using pop_spec[OF Suc.prems(1)] Suc.prems(2) unfolding es_def by auto
  define s2 where "s2 = fst (pushLeft s1 d1 r)"
  define d2 where "d2 = snd (pushLeft s1 d1 r)"
  obtain as2 where q: "rep s2 d2 as2"
      "elems s2 d2 as2 = (if length_dq d1 = 0 then r else val (Node r)) # elems s1 d1 as1"
      "frame s1 as1 s2 as2" "length_dq d2 = length_dq d1 + 1"
    using pushLeft_spec[OF p(2), of r] unfolding s2_def d2_def by blast
  have l2: "length_dq d2 = length_dq d" using p(6) q(4) by simp
  have e2: "elems s2 d2 as2 = rotate_right1 es"
  proof (cases "length es \<le> 1")
    case True
    then obtain x where x: "es = [x]" using ene by (cases es) auto
    then have "length_dq d1 = 0" using p(6) les by simp
    then show ?thesis using q(2) p(4,5) x by (simp add: rotate_right1_def)
  next
    case False
    then have "length_dq d1 \<noteq> 0" using p(6) les by linarith
    then show ?thesis using q(2) p(4,5) False by (simp add: rotate_right1_def)
  qed
  obtain s' d' as' where ih: "rotate_right n s2 d2 = Inr (s', d')" "rep s' d' as'"
      "frame s2 as2 s' as'" "length_dq d' = length_dq d2"
      "elems s' d' as' = (rotate_right1 ^^ n) (elems s2 d2 as2)"
    using Suc.IH[OF q(1)] l2 Suc.prems(2) by auto
  have run: "rotate_right (Suc n) s d = Inr (s', d')"
    using p(1) ih(1) by (simp add: s2_def d2_def case_prod_beta)
  have fr: "frame s as s' as'" using frame_trans[OF frame_trans[OF p(3) q(3)] ih(3)] .
  have el: "elems s' d' as' = (rotate_right1 ^^ Suc n) es"
    using ih(5) e2 by (simp add: funpow_swap1)
  have l: "length_dq d' = length_dq d" using ih(4) l2 by simp
  show ?case unfolding es_def[symmetric] using run ih(2) fr l el by blast
qed

lemma rotate_left_spec:
  "rep s d as \<Longrightarrow> length_dq d \<noteq> 0 \<Longrightarrow>
   \<exists>s' d' as'. rotate_left n s d = Inr (s', d') \<and> rep s' d' as' \<and> frame s as s' as' \<and>
     length_dq d' = length_dq d \<and> elems s' d' as' = (rotate_left1 ^^ n) (elems s d as)"
proof (induction n arbitrary: s d as)
  case 0
  then show ?case using frame_refl by auto
next
  case (Suc n)
  define es where "es = elems s d as"
  have ene: "es \<noteq> []" using Suc.prems by (auto simp: es_def elems_def rep_def)
  have les: "int (length es) = length_dq d"
    using Suc.prems by (auto simp: es_def elems_def rep_def)
  obtain s1 d1 r as1 where p: "popleft s d = Inr (s1, d1, r)" "rep s1 d1 as1" "frame s as s1 as1"
      "r = hd es" "elems s1 d1 as1 = tl es" "length_dq d1 = length_dq d - 1"
    using popleft_spec[OF Suc.prems(1)] Suc.prems(2) unfolding es_def by auto
  define s2 where "s2 = fst (push s1 d1 r)"
  define d2 where "d2 = snd (push s1 d1 r)"
  obtain as2 where q: "rep s2 d2 as2"
      "elems s2 d2 as2 = elems s1 d1 as1 @ [if length_dq d1 = 0 then r else val (Node r)]"
      "frame s1 as1 s2 as2" "length_dq d2 = length_dq d1 + 1"
    using push_spec[OF p(2), of r] unfolding s2_def d2_def by blast
  have l2: "length_dq d2 = length_dq d" using p(6) q(4) by simp
  have e2: "elems s2 d2 as2 = rotate_left1 es"
  proof (cases "length es \<le> 1")
    case True
    then obtain x where x: "es = [x]" using ene by (cases es) auto
    then have "length_dq d1 = 0" using p(6) les by simp
    then show ?thesis using q(2) p(4,5) x by (simp add: rotate_left1_def)
  next
    case False
    then have "length_dq d1 \<noteq> 0" using p(6) les by linarith
    then show ?thesis using q(2) p(4,5) False by (simp add: rotate_left1_def)
  qed
  obtain s' d' as' where ih: "rotate_left n s2 d2 = Inr (s', d')" "rep s' d' as'"
      "frame s2 as2 s' as'" "length_dq d' = length_dq d2"
      "elems s' d' as' = (rotate_left1 ^^ n) (elems s2 d2 as2)"
    using Suc.IH[OF q(1)] l2 Suc.prems(2) by auto
  have run: "rotate_left (Suc n) s d = Inr (s', d')"
    using p(1) ih(1) by (simp add: s2_def d2_def case_prod_beta)
  have fr: "frame s as s' as'" using frame_trans[OF frame_trans[OF p(3) q(3)] ih(3)] .
  have el: "elems s' d' as' = (rotate_left1 ^^ Suc n) es"
    using ih(5) e2 by (simp add: funpow_swap1)
  have l: "length_dq d' = length_dq d" using ih(4) l2 by simp
  show ?case unfolding es_def[symmetric] using run ih(2) fr l el by blast
qed

section \<open>optimizeSteps\<close>

lemma js_rem_bounds:
  assumes "0 < n"
  shows "\<exists>r. js_rem k n = Some r \<and> \<bar>r\<bar> < n \<and> (r - k) mod n = 0"
proof (cases "0 \<le> k")
  case True
  define r where "r = k mod n"
  have "sgn k * (k mod n) = k mod n" using True by (cases "k = 0") (simp_all add: sgn_if)
  then have f1: "js_rem k n = Some r" using assms True by (simp add: js_rem_def r_def)
  have "r - k = n * (- (k div n))"
    using minus_mod_eq_mult_div[of k n] by (simp add: r_def)
  then have f2: "(r - k) mod n = 0" by simp
  have "0 \<le> r" "r < n" using assms by (simp_all add: r_def)
  then have f3: "\<bar>r\<bar> < n" by linarith
  show ?thesis using f1 f2 f3 by (intro exI[of _ r]) simp
next
  case False
  define q where "q = (- k) mod n"
  have "sgn k = - 1" "\<bar>k\<bar> = - k" using False by (simp_all add: sgn_if)
  then have f1: "js_rem k n = Some (- q)" using assms by (simp add: js_rem_def q_def)
  have "- q - k = n * ((- k) div n)"
    using minus_mod_eq_mult_div[of "- k" n] by (simp add: q_def)
  then have f2: "(- q - k) mod n = 0" by simp
  have "0 \<le> q" "q < n" using assms by (simp_all add: q_def)
  then have f3: "\<bar>- q\<bar> < n" by linarith
  show ?thesis using f1 f2 f3 by (intro exI[of _ "- q"]) simp
qed

lemma optimizeSteps_range:
  assumes "0 < length_dq d"
  shows "\<exists>r. optimizeSteps d k = Some r \<and> (r - k) mod length_dq d = 0 \<and> \<bar>r\<bar> \<le> length_dq d div 2"
proof -
  define n where "n = length_dq d"
  obtain r where r: "js_rem k n = Some r" "\<bar>r\<bar> < n" "(r - k) mod n = 0"
    using js_rem_bounds[of n k] assms n_def by auto
  have a: "(r - n - k) mod n = 0"
  proof -
    have "(r - n - k) mod n = (r - k - n) mod n" by (simp add: algebra_simps)
    then show ?thesis using r(3) by simp
  qed
  have b: "(r + n - k) mod n = 0"
  proof -
    have "(r + n - k) mod n = (r - k + n) mod n" by (simp add: algebra_simps)
    then show ?thesis using r(3) by simp
  qed
  have h: "n \<le> 2 * (n div 2) + 1" by presburger
  have o: "optimizeSteps d k =
      (if \<bar>r\<bar> > n div 2 then (if r > 0 then Some (r - n) else Some (r + n)) else Some r)"
    using r(1) by (simp add: optimizeSteps_def n_def)
  consider (small) "\<not> \<bar>r\<bar> > n div 2" | (pos) "\<bar>r\<bar> > n div 2" "r > 0"
    | (neg) "\<bar>r\<bar> > n div 2" "\<not> r > 0" by blast
  then show ?thesis
  proof cases
    case small
    then have "optimizeSteps d k = Some r" "\<bar>r\<bar> \<le> n div 2" using o by simp_all
    then show ?thesis using r(3) unfolding n_def by (intro exI[of _ r]) simp
  next
    case pos
    then have "optimizeSteps d k = Some (r - n)" using o by simp
    moreover have "\<bar>r - n\<bar> \<le> n div 2" using pos r(2) h by linarith
    ultimately show ?thesis using a unfolding n_def by (intro exI[of _ "r - length_dq d"]) simp
  next
    case neg
    then have "optimizeSteps d k = Some (r + n)" using o by simp
    moreover have "\<bar>r + n\<bar> \<le> n div 2" using neg r(2) h by linarith
    ultimately show ?thesis using b unfolding n_def by (intro exI[of _ "r + length_dq d"]) simp
  qed
qed

lemma js_rem_neg: "b \<noteq> 0 \<Longrightarrow> js_rem (- a) b = map_option uminus (js_rem a b)"
  by (simp add: js_rem_def sgn_if)

lemma optimizeSteps_neg:
  assumes "0 < length_dq d" "length_dq d' = length_dq d"
  shows "optimizeSteps d' (- k) = map_option uminus (optimizeSteps d k)"
proof -
  obtain r where r: "js_rem k (length_dq d) = Some r"
    using js_rem_bounds[OF assms(1), of k] by auto
  then have "js_rem (- k) (length_dq d) = Some (- r)" using assms(1) by (simp add: js_rem_neg)
  then show ?thesis using r assms by (auto simp: optimizeSteps_def)
qed

section \<open>rotate and the constructor\<close>

lemma optimizeSteps_defined: "length_dq d \<noteq> 0 \<Longrightarrow> \<exists>r. optimizeSteps d k = Some r"
  by (simp add: optimizeSteps_def js_rem_def)

lemma rotate_dq_spec:
  assumes "rep s d as"
  shows "\<exists>s' d' as'. rotate_dq s d k = Inr (s', d') \<and> rep s' d' as' \<and> frame s as s' as' \<and>
           length_dq d' = length_dq d \<and> elems s' d' as' = rotated d k (elems s d as) \<and>
           (length_dq d = 0 \<longrightarrow> s' = s \<and> d' = d)"
proof (cases "k = 0 \<or> length_dq d = 0")
  case True
  then have "rotate_dq s d k = Inr (s, d)"
    by (elim disjE; simp add: rotate_dq_def optimizeSteps_def js_rem_def)
  moreover have "rotated d k (elems s d as) = elems s d as"
    using True by (elim disjE; simp add: rotated_def optimizeSteps_def js_rem_def)
  ultimately show ?thesis using assms frame_refl by auto
next
  case False
  then have l: "0 < length_dq d" using assms by (auto simp: rep_def split: if_splits)
  have l0: "length_dq d \<noteq> 0" using l by simp
  obtain r where r: "optimizeSteps d k = Some r" using optimizeSteps_defined[OF l0] by blast
  have k0: "k \<noteq> 0" using False by simp
  show ?thesis
  proof (cases "r > 0")
    case True
    have e1: "rotate_dq s d k = rotate_right (nat r) s d"
      using k0 r True by (simp add: rotate_dq_def)
    have e2: "rotated d k (elems s d as) = (rotate_right1 ^^ nat r) (elems s d as)"
      using k0 r True by (simp add: rotated_def)
    show ?thesis unfolding e1 e2 using rotate_right_spec[OF assms l0, of "nat r"] l0 by auto
  next
    case neg: False
    have e1: "rotate_dq s d k = rotate_left (nat \<bar>r\<bar>) s d"
      using k0 r neg by (simp add: rotate_dq_def)
    have e2: "rotated d k (elems s d as) = (rotate_left1 ^^ nat \<bar>r\<bar>) (elems s d as)"
      using k0 r neg by (simp add: rotated_def)
    show ?thesis unfolding e1 e2 using rotate_left_spec[OF assms l0, of "nat \<bar>r\<bar>"] l0 by auto
  qed
qed

lemma rotated_inverse:
  assumes "length_dq d' = length_dq d" "0 \<le> length_dq d" "Undefined \<notin> set xs"
  shows "rotated d' (- k) (rotated d k xs) = xs"
proof (cases "k = 0 \<or> length_dq d = 0")
  case True
  then show ?thesis using assms(1) by (elim disjE; simp add: rotated_def optimizeSteps_def js_rem_def)
next
  case False
  then have l: "0 < length_dq d" using assms by auto
  have l0: "length_dq d \<noteq> 0" using l by simp
  obtain r where r: "optimizeSteps d k = Some r" using optimizeSteps_defined[OF l0] by blast
  then have r': "optimizeSteps d' (- k) = Some (- r)" using optimizeSteps_neg[OF l assms(1)] by simp
  have k0: "k \<noteq> 0" "- k \<noteq> 0" using False by simp_all
  consider (pos) "r > 0" | (neg) "r < 0" | (zero) "r = 0" by linarith
  then show ?thesis
  proof cases
    case pos
    have a: "rotated d k xs = (rotate_right1 ^^ nat r) xs"
      using pos k0 r by (simp add: rotated_def)
    have b: "rotated d' (- k) ys = (rotate_left1 ^^ nat r) ys" for ys :: "'a jsval list"
      using pos k0 r' by (simp add: rotated_def)
    show ?thesis by (simp add: a b rotate_left_right[OF assms(3)])
  next
    case neg
    have a: "rotated d k xs = (rotate_left1 ^^ nat (- r)) xs"
      using neg k0 r by (simp add: rotated_def)
    have b: "rotated d' (- k) ys = (rotate_right1 ^^ nat (- r)) ys" for ys :: "'a jsval list"
      using neg k0 r' by (simp add: rotated_def)
    show ?thesis by (simp add: a b rotate_right_left[OF assms(3)])
  next
    case zero
    then show ?thesis using k0 r r' by (simp add: rotated_def)
  qed
qed

lemma elems_empty: "rep s d as \<Longrightarrow> (elems s d as = []) = (length_dq d = 0)"
  by (auto simp: elems_def rep_def)

lemma pushed_defined: "Undefined \<notin> set xs \<Longrightarrow> pushed es xs = es @ xs"
  by (induction xs arbitrary: es) (auto simp: val_Node_defined)

lemma pushed_Nil:
  "pushed [] xs = (case xs of [] \<Rightarrow> [] | x # ys \<Rightarrow> x # map (\<lambda>y. val (Node y)) ys)"
proof -
  have "es \<noteq> [] \<Longrightarrow> pushed es ys = es @ map (\<lambda>y. val (Node y)) ys" for es ys :: "'a jsval list"
    by (induction ys arbitrary: es) auto
  then show ?thesis by (cases xs) auto
qed

lemma push_all_spec:
  "rep s d as \<Longrightarrow>
   \<exists>as'. rep (fst (push_all s d xs)) (snd (push_all s d xs)) as' \<and>
     elems (fst (push_all s d xs)) (snd (push_all s d xs)) as' = pushed (elems s d as) xs \<and>
     frame s as (fst (push_all s d xs)) as'"
proof (induction xs arbitrary: s d as)
  case Nil
  then show ?case using frame_refl by auto
next
  case (Cons x xs)
  define s1 where "s1 = fst (push s d x)"
  define d1 where "d1 = snd (push s d x)"
  obtain as1 where p: "rep s1 d1 as1"
    "elems s1 d1 as1 = elems s d as @ [if length_dq d = 0 then x else val (Node x)]"
    "frame s as s1 as1"
    using push_spec[OF Cons.prems, of x] unfolding s1_def d1_def by blast
  obtain as' where q: "rep (fst (push_all s1 d1 xs)) (snd (push_all s1 d1 xs)) as'"
    "elems (fst (push_all s1 d1 xs)) (snd (push_all s1 d1 xs)) as' = pushed (elems s1 d1 as1) xs"
    "frame s1 as1 (fst (push_all s1 d1 xs)) as'"
    using Cons.IH[OF p(1)] by blast
  have e: "push_all s d (x # xs) = push_all s1 d1 xs"
    by (simp add: s1_def d1_def case_prod_beta)
  have "pushed (elems s1 d1 as1) xs = pushed (elems s d as) (x # xs)"
    using p(2) elems_empty[OF Cons.prems] by simp
  then show ?case unfolding e using q frame_trans[OF p(3) q(3)] by auto
qed

lemma Deque_empty_spec:
  "rep (fst (Deque s [])) (snd (Deque s [])) [fresh s] \<and>
   length_dq (snd (Deque s [])) = 0 \<and>
   fresh (fst (Deque s [])) = Suc (fresh s) \<and>
   (\<forall>a. a \<noteq> fresh s \<longrightarrow> heap (fst (Deque s [])) a = heap s a)"
  by (simp add: Deque_def new_Node_def rep_def Node_def)

lemma Deque_spec:
  "\<exists>as. rep (fst (Deque s xs)) (snd (Deque s xs)) as \<and>
     elems (fst (Deque s xs)) (snd (Deque s xs)) as = pushed [] xs \<and>
     fresh s \<le> fresh (fst (Deque s xs)) \<and>
     (\<forall>a\<in>set as. fresh s \<le> a) \<and>
     (\<forall>a. a < fresh s \<longrightarrow> heap (fst (Deque s xs)) a = heap s a)"
proof -
  define s1 where "s1 = fst (Deque s [])"
  define d1 where "d1 = snd (Deque s [])"
  have r: "rep s1 d1 [fresh s]" and l: "length_dq d1 = 0" and f: "fresh s1 = Suc (fresh s)"
    and h: "\<forall>a. a \<noteq> fresh s \<longrightarrow> heap s1 a = heap s a"
    using Deque_empty_spec[of s] by (simp_all add: s1_def d1_def)
  have e: "Deque s xs = push_all s1 d1 xs"
    by (simp add: Deque_def s1_def d1_def case_prod_beta)
  obtain as where q: "rep (fst (push_all s1 d1 xs)) (snd (push_all s1 d1 xs)) as"
    "elems (fst (push_all s1 d1 xs)) (snd (push_all s1 d1 xs)) as =
       pushed (elems s1 d1 [fresh s]) xs"
    "frame s1 [fresh s] (fst (push_all s1 d1 xs)) as"
    using push_all_spec[OF r] by blast
  have "elems s1 d1 [fresh s] = []" using l by (simp add: elems_def)
  moreover have "fresh s \<le> fresh (fst (push_all s1 d1 xs))" using q(3) f by (simp add: frame_def)
  moreover have "\<forall>a\<in>set as. fresh s \<le> a"
  proof
    fix a assume "a \<in> set as"
    then have "a \<in> set [fresh s] \<or> fresh s1 \<le> a" using q(3) unfolding frame_def by blast
    then show "fresh s \<le> a" using f by auto
  qed
  moreover have "\<forall>a. a < fresh s \<longrightarrow> heap (fst (push_all s1 d1 xs)) a = heap s a"
    using q(3) f h by (simp add: frame_def)
  ultimately show ?thesis unfolding e using q by auto
qed

section \<open>copy and sequences of mutations\<close>

lemma copy_loop_spec:
  "rep s c bs \<Longrightarrow> dll (heap s) p todo None \<Longrightarrow>
   (\<forall>a\<in>set todo. a < fresh s \<and> a \<notin> set bs) \<Longrightarrow>
   \<exists>s' c' bs'. copy_loop s c (first todo) = Some (s', c') \<and> rep s' c' bs' \<and>
     elems s' c' bs' = pushed (elems s c bs) (map (\<lambda>a. val (heap s a)) todo) \<and>
     frame s bs s' bs'"
proof (induction todo arbitrary: s c bs p)
  case Nil
  have "copy_loop s c None = Some (s, c)" by (subst copy_loop.simps) simp
  then show ?case using Nil.prems(1) frame_refl by auto
next
  case (Cons a rest)
  define v where "v = val (heap s a)"
  define s1 where "s1 = fst (push s c v)"
  define c1 where "c1 = snd (push s c v)"
  obtain bs1 where p: "rep s1 c1 bs1"
    "elems s1 c1 bs1 = elems s c bs @ [if length_dq c = 0 then v else val (Node v)]"
    "frame s bs s1 bs1"
    using push_spec[OF Cons.prems(1), of v] unfolding s1_def c1_def by blast
  have same: "heap s1 x = heap s x" if x: "x \<in> set (a # rest)" for x
    using Cons.prems(3) p(3) x unfolding frame_def by blast
  have nx: "next (heap s1 a) = first rest"
    using dll_step[OF Cons.prems(2)] same[of a] by (cases rest) auto
  have "dll (heap s) (Some a) rest None" using dll_step[OF Cons.prems(2)] by simp
  then have d1: "dll (heap s1) (Some a) rest None"
    using dll_cong[of rest "heap s1" "heap s" "Some a" None] same by simp
  have fr1: "\<forall>x\<in>set rest. x < fresh s1 \<and> x \<notin> set bs1"
  proof
    fix x assume x: "x \<in> set rest"
    then have xs: "x < fresh s" "x \<notin> set bs" using Cons.prems(3) by auto
    have "fresh s \<le> fresh s1" using p(3) by (simp add: frame_def)
    moreover have "x \<notin> set bs1"
    proof
      assume "x \<in> set bs1"
      then have "x \<in> set bs \<or> fresh s \<le> x" using p(3) unfolding frame_def by blast
      then show False using xs by auto
    qed
    ultimately show "x < fresh s1 \<and> x \<notin> set bs1" using xs by simp
  qed
  obtain s' c' bs' where ih: "copy_loop s1 c1 (first rest) = Some (s', c')" "rep s' c' bs'"
      "elems s' c' bs' = pushed (elems s1 c1 bs1) (map (\<lambda>a. val (heap s1 a)) rest)"
      "frame s1 bs1 s' bs'"
    using Cons.IH[OF p(1) d1 fr1] by blast
  have run: "copy_loop s c (first (a # rest)) = Some (s', c')"
    using ih(1) nx
    by (subst copy_loop.simps) (simp add: case_prod_beta v_def[symmetric] s1_def[symmetric] c1_def[symmetric])
  have meq: "map (\<lambda>a. val (heap s1 a)) rest = map (\<lambda>a. val (heap s a)) rest"
    by (rule map_cong) (simp_all add: same)
  have el: "elems s' c' bs' = pushed (elems s c bs) (map (\<lambda>a. val (heap s a)) (a # rest))"
    using elems_empty[OF Cons.prems(1)] by (simp add: ih(3) p(2) meq v_def)
  have fr: "frame s bs s' bs'" using frame_trans[OF p(3) ih(4)] .
  show ?case using run ih(2) el fr by blast
qed

lemma copy_spec:
  assumes "rep s d as"
  shows "\<exists>s' c bs. copy s d = Some (s', c) \<and> rep s' c bs \<and>
           elems s' c bs = pushed [] (elems s d as) \<and> frame s [] s' bs"
proof -
  define s1 where "s1 = fst (Deque s [])"
  define c1 where "c1 = snd (Deque s [])"
  have r1: "rep s1 c1 [fresh s]" and l1: "length_dq c1 = 0" and f1: "fresh s1 = Suc (fresh s)"
    and h1: "\<forall>a. a \<noteq> fresh s \<longrightarrow> heap s1 a = heap s a"
    using Deque_empty_spec[of s] by (simp_all add: s1_def c1_def)
  have fr1: "frame s [] s1 [fresh s]" using f1 h1 by (simp add: frame_def)
  have e1: "elems s1 c1 [fresh s] = []" using l1 by (simp add: elems_def)
  show ?thesis
  proof (cases "length_dq d = 0")
    case True
    then have "copy s d = Some (s1, c1)" by (simp add: copy_def s1_def c1_def)
    moreover have "elems s d as = []" using True by (simp add: elems_def)
    ultimately show ?thesis using r1 e1 fr1 by auto
  next
    case False
    have ne: "as \<noteq> []" and dl: "dll (heap s) None as None" and hd: "head d = hd as"
      and al: "\<forall>a\<in>set as. a < fresh s"
      using assms by (auto simp: rep_def)
    have same: "\<forall>a\<in>set as. heap s1 a = heap s a" using al h1 by auto
    then have d1: "dll (heap s1) None as None"
      using dll_cong[of as "heap s1" "heap s" None None] dl by simp
    have t: "\<forall>a\<in>set as. a < fresh s1 \<and> a \<notin> set [fresh s]" using al f1 by auto
    obtain s' c' bs' where lp: "copy_loop s1 c1 (first as) = Some (s', c')" "rep s' c' bs'"
      "elems s' c' bs' = pushed (elems s1 c1 [fresh s]) (map (\<lambda>a. val (heap s1 a)) as)"
      "frame s1 [fresh s] s' bs'"
      using copy_loop_spec[OF r1 d1 t] by blast
    have f: "first as = Some (head d)" using ne hd by (cases as) auto
    have run: "copy s d = Some (s', c')"
      using False lp(1) f by (simp add: copy_def case_prod_beta s1_def c1_def)
    have meq: "map (\<lambda>a. val (heap s1 a)) as = map (\<lambda>a. val (heap s a)) as"
      by (rule map_cong) (use same in auto)
    have "elems s d as = map (\<lambda>a. val (heap s a)) as" using False by (simp add: elems_def)
    then have el: "elems s' c' bs' = pushed [] (elems s d as)"
      by (simp add: lp(3) e1 meq)
    have fr: "frame s [] s' bs'" using frame_trans[OF fr1 lp(4)] .
    show ?thesis using run lp(2) el fr by blast
  qed
qed

lemma mutate_spec:
  assumes "rep s d as"
  shows "mutate s d m = Some (Inl RangeError) \<or>
         (\<exists>s' d' as'. mutate s d m = Some (Inr (s', d')) \<and> rep s' d' as' \<and> frame s as s' as')"
proof (cases m)
  case (Push v)
  then show ?thesis using push_spec[OF assms, of v] by (auto simp: prod_eq_iff)
next
  case (PushLeft v)
  then show ?thesis using pushLeft_spec[OF assms, of v] by (auto simp: prod_eq_iff)
next
  case Pop
  then show ?thesis using pop_spec[OF assms] by auto
next
  case Popleft
  then show ?thesis using popleft_spec[OF assms] by auto
next
  case (InsertAt v i)
  show ?thesis
  proof (cases "0 \<le> i \<and> i < length_dq d")
    case True
    then show ?thesis using insertAt_spec[OF assms, of i v] InsertAt by auto
  next
    case False
    then have "insertAt s d v i = Some (Inl RangeError)" by (auto simp: insertAt_def)
    then show ?thesis using InsertAt by simp
  qed
next
  case (RemoveAt i)
  show ?thesis
  proof (cases "0 \<le> i \<and> i < length_dq d")
    case True
    then show ?thesis using removeAt_spec[OF assms, of i] RemoveAt by auto
  next
    case False
    then have "removeAt s d i = Some (Inl RangeError)" by (auto simp: removeAt_def)
    then show ?thesis using RemoveAt by simp
  qed
next
  case Reverse
  then show ?thesis using reverse_spec[OF assms] by auto
next
  case (Rotate k)
  then show ?thesis using rotate_dq_spec[OF assms, of k] by auto
next
  case Clear
  then show ?thesis using clear_spec[OF assms] by (auto simp: prod_eq_iff)
qed

lemma mutate_all_spec:
  "rep s d as \<Longrightarrow>
   mutate_all s d ms = Some (Inl RangeError) \<or>
   (\<exists>s' d' as'. mutate_all s d ms = Some (Inr (s', d')) \<and> rep s' d' as' \<and> frame s as s' as')"
proof (induction ms arbitrary: s d as)
  case Nil
  then show ?case using frame_refl by auto
next
  case (Cons m ms)
  consider (err) "mutate s d m = Some (Inl RangeError)"
    | (ok) s1 d1 as1 where "mutate s d m = Some (Inr (s1, d1))" "rep s1 d1 as1" "frame s as s1 as1"
    using mutate_spec[OF Cons.prems, of m] by blast
  then show ?case
  proof cases
    case err
    then show ?thesis by simp
  next
    case ok
    consider (err2) "mutate_all s1 d1 ms = Some (Inl RangeError)"
      | (ok2) s' d' as' where "mutate_all s1 d1 ms = Some (Inr (s', d'))" "rep s' d' as'"
          "frame s1 as1 s' as'"
      using Cons.IH[OF ok(2)] by blast
    then show ?thesis
    proof cases
      case err2
      then show ?thesis using ok(1) by simp
    next
      case ok2
      then show ?thesis using ok(1) frame_trans[OF ok(3) ok2(3)] by auto
    qed
  qed
qed

section \<open>From the invariant to the list of nodes and back\<close>


lemma rep_structural:
  assumes "rep s d as"
  shows "structural_invariants s d"
proof -
  have ne: "as \<noteq> []" and dl: "dll (heap s) None as None"
    and tl: "tail d = last as" and hd: "head d = hd as"
    using assms by (auto simp: rep_def)
  have nn: "next_nodes s d = as" and pn: "prev_nodes s d = rev as"
    using rep_next_nodes[OF assms] rep_prev_nodes[OF assms] by simp_all
  have l0: "0 \<le> length_dq d" using assms by (auto simp: rep_def split: if_splits)
  have z: "head d = tail d \<and> val (heap s (head d)) = Null" if z0: "length_dq d = 0"
  proof -
    obtain a where "as = [a]" using assms z0 by (cases as) (auto simp: rep_def)
    then show ?thesis using assms z0 by (simp add: rep_def)
  qed
  have ends: "prev (heap s (head d)) = None \<and> next (heap s (tail d)) = None"
    using dll_ends[OF dl ne] hd tl by simp
  have len: "length as = nat (length_dq d)" if "length_dq d \<ge> 2"
    using assms that by (auto simp: rep_def split: if_splits)
  have lp: "last (rev as) = head d" using ne hd by (simp add: last_rev)
  show ?thesis
    unfolding structural_invariants_def nn pn
    using l0 z ends len tl lp by auto
qed

section \<open>The example deques\<close>

lemma deque123_invariant: "invariant (fst deque123) (snd deque123)"
  by code_simp

lemma deque123_length: "length_dq (snd deque123) = 3"
  by code_simp

lemma deque123_toArray: "toArray (fst deque123) (snd deque123) = Some [Val 1, Val 2, Val 3]"
  by code_simp


lemma deque_empty_invariant: "invariant (fst deque_empty) (snd deque_empty)"
  by code_simp

lemma deque_empty_length: "length_dq (snd deque_empty) = 0"
  by code_simp

lemma deque_u12_invariant: "invariant (fst deque_u12) (snd deque_u12)"
  by code_simp

lemma deque_1u_invariant: "invariant (fst deque_1u) (snd deque_1u)"
  by code_simp

section \<open>The claims\<close>




text \<open>
  C2. Iterating the empty deque does not report completion at once: the test
  \<open>this._length === 0\<close> in \<open>next\<close> reads \<open>_length\<close> from the iterator object, finds
  \<open>undefined\<close>, and never holds, so the value of the node of the empty deque is produced
  as an element. \<open>toArray\<close> on the same deque is empty.
\<close>

theorem iterate_empty_deque:
  "iterate (fst (Deque s [])) (snd (Deque s [])) = Some [Null] \<and>
   toArray (fst (Deque s [])) (snd (Deque s [])) = Some []"
proof -
  have r: "rep (fst (Deque s [])) (snd (Deque s [])) [fresh s]"
    and l: "length_dq (snd (Deque s [])) = 0"
    using Deque_empty_spec[of s] by simp_all
  have "val (heap (fst (Deque s [])) (fresh s)) = Null" using r l by (simp add: rep_def)
  then show ?thesis using iterate_rep[OF r] toArray_rep[OF r] l by (simp add: elems_def)
qed

lemma iterate_nonempty:
  assumes "invariant s d" "length_dq d \<noteq> 0"
  shows "iterate s d = toArray s d"
proof -
  obtain as where r: "rep s d as" using invariant_rep[OF assms(1)] by blast
  show ?thesis using iterate_rep[OF r] toArray_rep[OF r] assms(2) by (simp add: elems_def)
qed

text \<open>
  C3. On a deque that satisfies the invariant, \<open>at\<close>, \<open>insertAt\<close> and \<open>removeAt\<close> signal a
  range error exactly when the index is negative or not below the length, and return a
  result for every other index; \<open>pop\<close>, \<open>popleft\<close>, \<open>getHead\<close> and \<open>getTail\<close> on an empty
  deque return \<open>null\<close> and change nothing.
\<close>

theorem error_policy:
  assumes "invariant s d"
  shows "(at s d i = Some (Inl RangeError) \<longleftrightarrow> i < 0 \<or> length_dq d \<le> i) \<and>
         (insertAt s d v i = Some (Inl RangeError) \<longleftrightarrow> i < 0 \<or> length_dq d \<le> i) \<and>
         (removeAt s d i = Some (Inl RangeError) \<longleftrightarrow> i < 0 \<or> length_dq d \<le> i) \<and>
         (0 \<le> i \<and> i < length_dq d \<longrightarrow>
            (\<exists>x. at s d i = Some (Inr x)) \<and>
            (\<exists>s' d'. insertAt s d v i = Some (Inr (s', d', True))) \<and>
            (\<exists>s' d' x. removeAt s d i = Some (Inr (s', d', x)))) \<and>
         (length_dq d = 0 \<longrightarrow>
            pop s d = Inr (s, d, Null) \<and> popleft s d = Inr (s, d, Null) \<and>
            getHead s d = Null \<and> getTail s d = Null)"
proof -
  obtain as where r: "rep s d as" using invariant_rep[OF assms] by blast
  have out: "at s d i = Some (Inl RangeError) \<and> insertAt s d v i = Some (Inl RangeError) \<and>
             removeAt s d i = Some (Inl RangeError)" if "i < 0 \<or> length_dq d \<le> i"
    using that by (auto simp: at_def insertAt_def removeAt_def)
  have inn: "(\<exists>x. at s d i = Some (Inr x)) \<and>
            (\<exists>s' d'. insertAt s d v i = Some (Inr (s', d', True))) \<and>
            (\<exists>s' d' x. removeAt s d i = Some (Inr (s', d', x)))" if i: "0 \<le> i \<and> i < length_dq d"
  proof -
    have i0: "0 \<le> i" and i1: "i < length_dq d" using i by simp_all
    show ?thesis
      using at_spec[OF r i0 i1] insertAt_spec[OF r i0 i1, of v] removeAt_spec[OF r i0 i1]
      by blast
  qed
  have emp: "pop s d = Inr (s, d, Null) \<and> popleft s d = Inr (s, d, Null) \<and>
            getHead s d = Null \<and> getTail s d = Null" if z: "length_dq d = 0"
  proof -
    obtain a where "as = [a]" using r z by (cases as) (auto simp: rep_def)
    then have "head d = a" "tail d = a" "val (heap s a) = Null" using r z by (simp_all add: rep_def)
    then show ?thesis using z by (simp add: pop_def popleft_def getHead_def getTail_def)
  qed
  have iff: "(x = Some (Inl RangeError) \<longleftrightarrow> i < 0 \<or> length_dq d \<le> i)"
    if "i < 0 \<or> length_dq d \<le> i \<Longrightarrow> x = Some (Inl RangeError)"
      "0 \<le> i \<and> i < length_dq d \<Longrightarrow> \<exists>y. x = Some (Inr y)" for x :: "(error + 'r) option"
    using that by (cases "i < 0 \<or> length_dq d \<le> i") auto
  have "at s d i = Some (Inl RangeError) \<longleftrightarrow> i < 0 \<or> length_dq d \<le> i"
    by (rule iff) (use out inn in auto)
  moreover have "insertAt s d v i = Some (Inl RangeError) \<longleftrightarrow> i < 0 \<or> length_dq d \<le> i"
    by (rule iff) (use out inn in auto)
  moreover have "removeAt s d i = Some (Inl RangeError) \<longleftrightarrow> i < 0 \<or> length_dq d \<le> i"
    by (rule iff) (use out inn in auto)
  ultimately show ?thesis using inn emp by simp
qed

theorem error_policy_witness:
  "invariant (fst deque123) (snd deque123) \<and>
   at (fst deque123) (snd deque123) 3 = Some (Inl RangeError) \<and>
   insertAt (fst deque123) (snd deque123) (Val 9) (- 1) = Some (Inl RangeError) \<and>
   removeAt (fst deque123) (snd deque123) 3 = Some (Inl RangeError) \<and>
   (\<exists>x. at (fst deque123) (snd deque123) 2 = Some (Inr x)) \<and>
   (\<exists>s' d'. insertAt (fst deque123) (snd deque123) (Val 9) 2 = Some (Inr (s', d', True))) \<and>
   (\<exists>s' d' x. removeAt (fst deque123) (snd deque123) 2 = Some (Inr (s', d', x))) \<and>
   invariant (fst deque_empty) (snd deque_empty) \<and> length_dq (snd deque_empty) = 0 \<and>
   pop (fst deque_empty) (snd deque_empty) = Inr (fst deque_empty, snd deque_empty, Null) \<and>
   popleft (fst deque_empty) (snd deque_empty) = Inr (fst deque_empty, snd deque_empty, Null) \<and>
   getHead (fst deque_empty) (snd deque_empty) = Null \<and>
   getTail (fst deque_empty) (snd deque_empty) = Null"
  using error_policy[OF deque123_invariant, where i = 3 and v = "Val 9"]
    error_policy[OF deque123_invariant, where i = "- 1" and v = "Val 9"]
    error_policy[OF deque123_invariant, where i = 2 and v = "Val 9"]
    error_policy[OF deque_empty_invariant, where i = 0 and v = Null]
    deque123_invariant deque123_length deque_empty_invariant deque_empty_length
  by simp

text \<open>
  Rotation and back, where no element is \<open>undefined\<close>: for every deque that satisfies the
  invariant and every integer \<open>k\<close>, \<open>rotate(k)\<close> followed by \<open>rotate(-k)\<close> returns, and
  gives back the original sequence of elements; on the empty deque \<open>rotate(k)\<close> returns and
  changes nothing, whatever the elements.
\<close>

lemma rotate_roundtrip_defined:
  assumes "invariant s d"
  shows "\<exists>es s1 d1 s2 d2. toArray s d = Some es \<and>
           rotate_dq s d k = Inr (s1, d1) \<and> rotate_dq s1 d1 (- k) = Inr (s2, d2) \<and>
           invariant s2 d2 \<and> (Undefined \<notin> set es \<longrightarrow> toArray s2 d2 = Some es) \<and>
           (length_dq d = 0 \<longrightarrow> s1 = s \<and> d1 = d)"
proof -
  obtain as where r: "rep s d as" using invariant_rep[OF assms] by blast
  obtain s1 d1 as1 where a: "rotate_dq s d k = Inr (s1, d1)" "rep s1 d1 as1"
      "length_dq d1 = length_dq d" "elems s1 d1 as1 = rotated d k (elems s d as)"
      "length_dq d = 0 \<longrightarrow> s1 = s \<and> d1 = d"
    using rotate_dq_spec[OF r, of k] by blast
  obtain s2 d2 as2 where b: "rotate_dq s1 d1 (- k) = Inr (s2, d2)" "rep s2 d2 as2"
      "elems s2 d2 as2 = rotated d1 (- k) (elems s1 d1 as1)"
    using rotate_dq_spec[OF a(2), of "- k"] by blast
  have l0: "0 \<le> length_dq d" using assms by (simp add: invariant_def)
  have t0: "toArray s d = Some (elems s d as)" using toArray_rep[OF r] .
  have t2: "toArray s2 d2 = Some (elems s d as)" if u: "Undefined \<notin> set (elems s d as)"
  proof -
    have "elems s2 d2 as2 = elems s d as"
      using b(3) a(4) rotated_inverse[OF a(3) l0 u] by simp
    then show ?thesis using toArray_rep[OF b(2)] by simp
  qed
  show ?thesis using t0 a(1,5) b(1) rep_invariant[OF b(2)] t2 by simp
qed

text \<open>
  C4. On the deque \<open>new Deque([undefined, 1, 2])\<close>, \<open>rotate(-1)\<close> followed by \<open>rotate(1)\<close>
  does not give back the original sequence: \<open>rotate(-1)\<close> is \<open>push(popleft())\<close>, the
  \<open>undefined\<close> that \<open>popleft\<close> returns goes through \<open>new Node(value)\<close>, whose default
  parameter turns it into \<open>null\<close>, and the sequence afterwards is \<open>null\<close>, 1, 2.
\<close>

theorem rotate_roundtrip_undefined:
  "toArray (fst deque_u12) (snd deque_u12) = Some [Undefined, Val 1, Val 2] \<and>
   rotate_and_back (fst deque_u12) (snd deque_u12) (- 1) = Some [Null, Val 1, Val 2]"
  by code_simp

text \<open>
  C5. For a deque of length at least 1 and every integer \<open>steps\<close>, \<open>optimizeSteps\<close> returns
  an integer that is congruent to \<open>steps\<close> modulo the length and whose absolute value is at
  most half the length, rounded down; \<open>rotate(steps)\<close> runs one of its two loops for that
  many rounds, each round one pop and one push.
\<close>

theorem optimizeSteps_bound:
  assumes "1 \<le> length_dq d"
  shows "\<exists>r. optimizeSteps d steps = Some r \<and>
           r mod length_dq d = steps mod length_dq d \<and>
           \<bar>r\<bar> \<le> length_dq d div 2 \<and>
           rotate_dq s d steps =
             (if steps = 0 then Inr (s, d)
              else if 0 < r then rotate_right (nat r) s d
              else rotate_left (nat \<bar>r\<bar>) s d) \<and>
           int (nat \<bar>r\<bar>) \<le> length_dq d div 2"
proof -
  have l: "0 < length_dq d" using assms by simp
  obtain r where r: "optimizeSteps d steps = Some r" "(r - steps) mod length_dq d = 0"
      "\<bar>r\<bar> \<le> length_dq d div 2"
    using optimizeSteps_range[OF l, of steps] by (elim exE conjE)
  have "length_dq d dvd r - steps" using r(2) by (simp add: dvd_eq_mod_eq_0)
  then have c: "r mod length_dq d = steps mod length_dq d" by (simp add: mod_eq_dvd_iff)
  have rt: "rotate_dq s d steps =
             (if steps = 0 then Inr (s, d)
              else if 0 < r then rotate_right (nat r) s d
              else rotate_left (nat \<bar>r\<bar>) s d)"
    using r(1) by (simp add: rotate_dq_def)
  have n: "int (nat \<bar>r\<bar>) \<le> length_dq d div 2" using r(3) by simp
  show ?thesis using r(1) c r(3) rt n by (intro exI[of _ r]) simp
qed

theorem optimizeSteps_bound_witness:
  "1 \<le> length_dq (snd deque123) \<and>
   (\<exists>r. optimizeSteps (snd deque123) 7 = Some r \<and>
      r mod length_dq (snd deque123) = 7 mod length_dq (snd deque123) \<and>
      \<bar>r\<bar> \<le> length_dq (snd deque123) div 2 \<and>
      rotate_dq (fst deque123) (snd deque123) 7 =
        (if 0 < r then rotate_right (nat r) (fst deque123) (snd deque123)
         else rotate_left (nat \<bar>r\<bar>) (fst deque123) (snd deque123)) \<and>
      int (nat \<bar>r\<bar>) \<le> length_dq (snd deque123) div 2)"
proof -
  have h: "1 \<le> length_dq (snd deque123)" by (simp add: deque123_length)
  show ?thesis
    using optimizeSteps_bound[OF h, of 7 "fst deque123"] h by simp
qed

text \<open>
  Insertion at an index, then reading: for every deque that satisfies the invariant and
  every index in range, \<open>insertAt(v, index)\<close> returns true; afterwards \<open>at(index)\<close> is the
  value that \<open>new Node(v)\<close> holds, which is \<open>v\<close> unless \<open>v\<close> is \<open>undefined\<close>, \<open>at(index + 1)\<close>
  is the element that was at \<open>index\<close> before, and the length is one more.
\<close>

lemma insertAt_then_at_stored:
  assumes "invariant s d" "0 \<le> i" "i < length_dq d"
  shows "\<exists>s' d'. insertAt s d v i = Some (Inr (s', d', True)) \<and>
           at s' d' i = Some (Inr (val (Node v))) \<and>
           (v \<noteq> Undefined \<longrightarrow> at s' d' i = Some (Inr v)) \<and>
           insertAt_then_at s d v i = Some (Inr (val (Node v))) \<and>
           at s' d' (i + 1) = at s d i \<and>
           length_dq d' = length_dq d + 1"
proof -
  obtain as where r: "rep s d as" using invariant_rep[OF assms(1)] by blast
  define es where "es = elems s d as"
  define j where "j = nat i"
  define w where "w = val (Node v)"
  have les: "int (length es) = length_dq d"
    using r assms(3) by (auto simp: es_def elems_def rep_def split: if_splits)
  have j: "j < length es" using assms les by (simp add: j_def)
  obtain s' d' as' where ins: "insertAt s d v i = Some (Inr (s', d', True))" "rep s' d' as'"
      "length_dq d' = length_dq d + 1" "elems s' d' as' = take j es @ w # drop j es"
    using insertAt_spec[OF r assms(2,3), of v] unfolding es_def j_def w_def by blast
  have i1: "i < length_dq d'" and i2: "0 \<le> i + 1" and i3: "i + 1 < length_dq d'"
    using assms ins(3) by simp_all
  have lt: "length (take j es) = j" using j by simp
  have n1: "(take j es @ w # drop j es) ! j = w"
    using lt by (simp add: nth_append)
  have n2: "(take j es @ w # drop j es) ! Suc j = es ! j"
    using lt j by (simp add: nth_append)
  have sj: "nat (i + 1) = Suc j" using assms(2) by (simp add: j_def)
  have a1: "at s' d' i = Some (Inr w)"
    using at_spec[OF ins(2) assms(2) i1] n1 by (simp add: ins(4) j_def[symmetric])
  have a2: "at s' d' (i + 1) = Some (Inr (es ! j))"
    using at_spec[OF ins(2) i2 i3] n2 by (simp add: ins(4) sj)
  have a3: "at s d i = Some (Inr (es ! j))"
    using at_spec[OF r assms(2,3)] by (simp add: es_def j_def)
  have a4: "insertAt_then_at s d v i = Some (Inr w)"
    using ins(1) a1 by (simp add: insertAt_then_at_def)
  have a5: "v \<noteq> Undefined \<longrightarrow> w = v" by (simp add: w_def val_Node)
  show ?thesis using ins(1,3) a1 a2 a3 a4 a5 unfolding w_def by simp
qed

text \<open>
  C6. On the deque 1, 2, 3, after \<open>insertAt(undefined, 1)\<close>, which returns true, \<open>at(1)\<close> is
  \<open>null\<close> and not the inserted \<open>undefined\<close>: the value goes through \<open>new Node(value)\<close>, whose
  default parameter turns \<open>undefined\<close> into \<open>null\<close>.
\<close>

theorem insertAt_undefined_stores_null:
  "(0::int) \<le> 1 \<and> 1 < length_dq (snd deque123) \<and>
   (\<exists>s' d'. insertAt (fst deque123) (snd deque123) Undefined 1 = Some (Inr (s', d', True))) \<and>
   insertAt_then_at (fst deque123) (snd deque123) Undefined 1 = Some (Inr Null)"
proof -
  have h: "(0::int) \<le> 1" "1 < length_dq (snd deque123)" by (simp_all add: deque123_length)
  show ?thesis
    using insertAt_then_at_stored[OF deque123_invariant h, of Undefined] deque123_invariant h
    by (auto simp: val_Node)
qed

text \<open>
  C7. For every deque that satisfies the invariant, \<open>reverse\<close> returns and the sequence of
  elements afterwards is the reverse of the sequence before; a second \<open>reverse\<close> gives
  back the original sequence; on a deque of length 0 or 1 the store and the deque's fields
  are unchanged.
\<close>

theorem reverse_reverses:
  assumes "invariant s d"
  shows "\<exists>es s' d' s'' d''. toArray s d = Some es \<and>
           reverse s d = Some (s', d') \<and> toArray s' d' = Some (rev es) \<and>
           invariant s' d' \<and> length_dq d' = length_dq d \<and>
           reverse s' d' = Some (s'', d'') \<and> toArray s'' d'' = Some es \<and>
           (length_dq d \<le> 1 \<longrightarrow> s' = s \<and> d' = d)"
proof -
  obtain as where r: "rep s d as" using invariant_rep[OF assms] by blast
  obtain s' d' where a: "reverse s d = Some (s', d')" "rep s' d' (rev as)"
      "elems s' d' (rev as) = rev (elems s d as)" "length_dq d' = length_dq d"
      "length as = 1 \<longrightarrow> s' = s \<and> d' = d"
    using reverse_spec[OF r] by blast
  obtain s'' d'' where b: "reverse s' d' = Some (s'', d'')" "rep s'' d'' (rev (rev as))"
      "elems s'' d'' (rev (rev as)) = rev (elems s' d' (rev as))"
    using reverse_spec[OF a(2)] by blast
  have one: "length as = 1" if "length_dq d \<le> 1"
    using r that by (cases as) (auto simp: rep_def split: if_splits)
  have t0: "toArray s d = Some (elems s d as)" using toArray_rep[OF r] .
  have t1: "toArray s' d' = Some (rev (elems s d as))" using toArray_rep[OF a(2)] a(3) by simp
  have t2: "toArray s'' d'' = Some (elems s d as)" using toArray_rep[OF b(2)] b(3) a(3) by simp
  show ?thesis using t0 a(1) t1 rep_invariant[OF a(2)] a(4) b(1) t2 one a(5) by simp
qed

theorem reverse_reverses_witness:
  "invariant (fst deque123) (snd deque123) \<and>
   (\<exists>s' d' s'' d''. reverse (fst deque123) (snd deque123) = Some (s', d') \<and>
      toArray s' d' = Some [Val 3, Val 2, Val 1] \<and> invariant s' d' \<and>
      reverse s' d' = Some (s'', d'') \<and> toArray s'' d'' = Some [Val 1, Val 2, Val 3]) \<and>
   invariant (fst deque_empty) (snd deque_empty) \<and> length_dq (snd deque_empty) \<le> 1 \<and>
   reverse (fst deque_empty) (snd deque_empty) = Some (fst deque_empty, snd deque_empty)"
proof -
  have a: "\<exists>s' d' s'' d''. reverse (fst deque123) (snd deque123) = Some (s', d') \<and>
      toArray s' d' = Some [Val 3, Val 2, Val 1] \<and> invariant s' d' \<and>
      reverse s' d' = Some (s'', d'') \<and> toArray s'' d'' = Some [Val 1, Val 2, Val 3]"
    using reverse_reverses[OF deque123_invariant] deque123_toArray by auto
  have b: "reverse (fst deque_empty) (snd deque_empty) = Some (fst deque_empty, snd deque_empty)"
    using reverse_reverses[OF deque_empty_invariant] deque_empty_length by auto
  show ?thesis using a b deque123_invariant deque_empty_invariant deque_empty_length by simp
qed

text \<open>
  The copy and its independence: for every deque that satisfies the invariant, \<open>copy\<close>
  returns a deque, itself satisfying the invariant, with no node in common with the
  original; its elements are the original's, pushed one after the other onto a new deque,
  so the same sequence when no element is \<open>undefined\<close>; the original is unchanged, and it
  stays unchanged (its nodes, its sequence of elements, its invariant), and the two deques
  stay without a common node, through every sequence of mutating operations on the copy.
  The length of the original is a field of the original's own record, which no operation
  on the copy receives.
\<close>

lemma copy_independent:
  assumes "invariant s d"
  shows "\<exists>es s' c. toArray s d = Some es \<and>
           copy s d = Some (s', c) \<and> invariant s' c \<and> invariant s' d \<and>
           toArray s' c = Some (pushed [] es) \<and>
           (Undefined \<notin> set es \<longrightarrow> toArray s' c = Some es) \<and>
           toArray s' d = Some es \<and>
           set (next_nodes s' c) \<inter> set (next_nodes s' d) = {} \<and>
           (\<forall>ms s'' c'. mutate_all s' c ms = Some (Inr (s'', c')) \<longrightarrow>
              invariant s'' d \<and> toArray s'' d = Some es \<and>
              next_nodes s'' d = next_nodes s' d \<and>
              set (next_nodes s'' c') \<inter> set (next_nodes s'' d) = {})"
proof -
  obtain as where r: "rep s d as" using invariant_rep[OF assms] by blast
  define es where "es = elems s d as"
  obtain s' c bs where cp: "copy s d = Some (s', c)" "rep s' c bs"
      "elems s' c bs = pushed [] es" "frame s [] s' bs"
    using copy_spec[OF r] unfolding es_def by blast
  have o: "rep s' d as" "elems s' d as = es" "set as \<inter> set bs = {}"
    using rep_frame[OF r cp(4)] by (simp_all add: es_def)
  have t0: "toArray s d = Some es" using toArray_rep[OF r] by (simp add: es_def)
  have tc: "toArray s' c = Some (pushed [] es)" using toArray_rep[OF cp(2)] cp(3) by simp
  have tu: "Undefined \<notin> set es \<longrightarrow> toArray s' c = Some es"
    using tc pushed_defined[of es "[]"] by simp
  have td: "toArray s' d = Some es" using toArray_rep[OF o(1)] o(2) by simp
  have nc: "next_nodes s' c = bs" and nd: "next_nodes s' d = as"
    using rep_next_nodes[OF cp(2)] rep_next_nodes[OF o(1)] by simp_all
  have later: "invariant s'' d \<and> toArray s'' d = Some es \<and>
              next_nodes s'' d = next_nodes s' d \<and>
              set (next_nodes s'' c') \<inter> set (next_nodes s'' d) = {}"
    if m: "mutate_all s' c ms = Some (Inr (s'', c'))" for ms s'' c'
  proof -
    obtain bs' where q: "rep s'' c' bs'" "frame s' bs s'' bs'"
      using mutate_all_spec[OF cp(2), of ms] m by auto
    have p: "rep s'' d as" "elems s'' d as = elems s' d as" "set as \<inter> set bs' = {}"
      using rep_frame[OF o(1) q(2) o(3)] by simp_all
    have "toArray s'' d = Some es" using toArray_rep[OF p(1)] p(2) o(2) by simp
    moreover have "next_nodes s'' d = as" "next_nodes s'' c' = bs'"
      using rep_next_nodes[OF p(1)] rep_next_nodes[OF q(1)] by simp_all
    ultimately show ?thesis using rep_invariant[OF p(1)] nd p(3) by auto
  qed
  have dj: "set (next_nodes s' c) \<inter> set (next_nodes s' d) = {}" using nc nd o(3) by auto
  show ?thesis
  proof (rule exI[of _ es], rule exI[of _ s'], rule exI[of _ c], intro conjI)
    show "toArray s d = Some es" by (rule t0)
    show "copy s d = Some (s', c)" by (rule cp(1))
    show "invariant s' c" by (rule rep_invariant[OF cp(2)])
    show "invariant s' d" by (rule rep_invariant[OF o(1)])
    show "toArray s' c = Some (pushed [] es)" by (rule tc)
    show "Undefined \<notin> set es \<longrightarrow> toArray s' c = Some es" by (rule tu)
    show "toArray s' d = Some es" by (rule td)
    show "set (next_nodes s' c) \<inter> set (next_nodes s' d) = {}" by (rule dj)
    show "\<forall>ms s'' c'. mutate_all s' c ms = Some (Inr (s'', c')) \<longrightarrow>
              invariant s'' d \<and> toArray s'' d = Some es \<and>
              next_nodes s'' d = next_nodes s' d \<and>
              set (next_nodes s'' c') \<inter> set (next_nodes s'' d) = {}"
      by (intro allI impI later)
  qed
qed

text \<open>
  C8. On the deque made by \<open>d = new Deque(); d.push(undefined); d.pushLeft(1)\<close>, whose
  sequence is 1, \<open>undefined\<close>, the copy's sequence is 1, \<open>null\<close>: \<open>copy\<close> pushes each element
  onto the new deque, and the second one, pushed onto a deque that is no longer empty,
  goes through \<open>new Node(value)\<close>, whose default parameter turns \<open>undefined\<close> into \<open>null\<close>.
  The original keeps its sequence.
\<close>

theorem copy_undefined_becomes_null:
  "toArray (fst deque_1u) (snd deque_1u) = Some [Val 1, Undefined] \<and>
   copy_toArray (fst deque_1u) (snd deque_1u) = Some [Val 1, Null]"
  by code_simp

text \<open>
  C9. The constructor establishes the invariant, and every mutating operation called on a
  deque that satisfies it either signals a range error before changing anything or returns
  with the invariant holding for the deque it leaves; \<open>copy\<close> leaves it holding for both
  deques. The invariant gives what the spec lists: the length is not negative; with length
  0, head and tail are one node with the value \<open>null\<close>; with length 2 or more, \<open>head.prev\<close> and
  \<open>tail.next\<close> are \<open>null\<close>, following \<open>next\<close> from the head visits exactly \<open>length\<close> nodes
  and ends at the tail, and following \<open>prev\<close> from the tail visits the same nodes in
  reverse and ends at the head. The operations that only read (\<open>getHead\<close>, \<open>getTail\<close>,
  \<open>at\<close>, \<open>toArray\<close>, iteration) return no new store or deque.
\<close>

theorem invariants_preserved:
  "invariant (fst (Deque s0 xs)) (snd (Deque s0 xs)) \<and>
   (invariant s d \<longrightarrow>
      structural_invariants s d \<and>
      (mutate s d m = Some (Inl RangeError) \<or>
       (\<exists>s' d'. mutate s d m = Some (Inr (s', d')) \<and> invariant s' d' \<and>
          structural_invariants s' d')) \<and>
      (\<exists>s' c. copy s d = Some (s', c) \<and> invariant s' c \<and> structural_invariants s' c \<and>
          invariant s' d \<and> structural_invariants s' d))"
proof -
  have c: "invariant (fst (Deque s0 xs)) (snd (Deque s0 xs))"
  proof -
    obtain as where "rep (fst (Deque s0 xs)) (snd (Deque s0 xs)) as"
      using Deque_spec[of s0 xs] by (elim exE conjE)
    then show ?thesis by (rule rep_invariant)
  qed
  have p: "structural_invariants s d \<and>
      (mutate s d m = Some (Inl RangeError) \<or>
       (\<exists>s' d'. mutate s d m = Some (Inr (s', d')) \<and> invariant s' d' \<and>
          structural_invariants s' d')) \<and>
      (\<exists>s' c. copy s d = Some (s', c) \<and> invariant s' c \<and> structural_invariants s' c \<and>
          invariant s' d \<and> structural_invariants s' d)" if i: "invariant s d"
  proof -
    obtain as where r: "rep s d as" using invariant_rep[OF i] by blast
    have m: "mutate s d m = Some (Inl RangeError) \<or>
       (\<exists>s' d'. mutate s d m = Some (Inr (s', d')) \<and> invariant s' d' \<and>
          structural_invariants s' d')"
    proof (cases "mutate s d m = Some (Inl RangeError)")
      case True
      then show ?thesis by simp
    next
      case False
      then obtain s' d' as' where "mutate s d m = Some (Inr (s', d'))" "rep s' d' as'"
        using mutate_spec[OF r, of m] by auto
      then show ?thesis using rep_invariant rep_structural by auto
    qed
    obtain s' c bs where cp: "copy s d = Some (s', c)" "rep s' c bs" "frame s [] s' bs"
      using copy_spec[OF r] by blast
    have o: "rep s' d as" using rep_frame[OF r cp(3)] by simp
    have "\<exists>s' c. copy s d = Some (s', c) \<and> invariant s' c \<and> structural_invariants s' c \<and>
          invariant s' d \<and> structural_invariants s' d"
      using cp(1) rep_invariant[OF cp(2)] rep_structural[OF cp(2)] rep_invariant[OF o]
        rep_structural[OF o] by simp
    then show ?thesis using rep_structural[OF r] m by simp
  qed
  show ?thesis using c p by simp
qed

theorem invariants_preserved_witness:
  "invariant (fst (Deque empty_store [])) (snd (Deque empty_store [])) \<and>
   invariant (fst deque123) (snd deque123) \<and>
   structural_invariants (fst deque123) (snd deque123) \<and>
   (mutate (fst deque123) (snd deque123) (RemoveAt 1) = Some (Inl RangeError) \<or>
    (\<exists>s' d'. mutate (fst deque123) (snd deque123) (RemoveAt 1) = Some (Inr (s', d')) \<and>
       invariant s' d' \<and> structural_invariants s' d')) \<and>
   (\<exists>s' c. copy (fst deque123) (snd deque123) = Some (s', c) \<and> invariant s' c \<and>
       structural_invariants s' c \<and> invariant s' (snd deque123) \<and>
       structural_invariants s' (snd deque123))"
  using invariants_preserved[of empty_store "[]" "fst deque123" "snd deque123" "RemoveAt 1"]
    deque123_invariant
  by simp

text \<open>
  C10. For every deque that satisfies the invariant and every integer index in range,
  \<open>insertAt\<close> returns true: the loop finds the node at the index, and the final
  \<open>return false\<close> is not reached.
\<close>

theorem insertAt_returns_true:
  assumes "invariant s d" "0 \<le> i" "i < length_dq d"
  shows "\<exists>s' d'. insertAt s d v i = Some (Inr (s', d', True))"
proof -
  obtain as where r: "rep s d as" using invariant_rep[OF assms(1)] by blast
  show ?thesis using insertAt_spec[OF r assms(2,3), of v] by blast
qed

theorem insertAt_returns_true_witness:
  "invariant (fst deque123) (snd deque123) \<and> (0::int) \<le> 2 \<and> 2 < length_dq (snd deque123) \<and>
   (\<exists>s' d'. insertAt (fst deque123) (snd deque123) (Val 9) 2 = Some (Inr (s', d', True)))"
proof -
  have h: "(0::int) \<le> 2" "2 < length_dq (snd deque123)" by (simp_all add: deque123_length)
  show ?thesis
    using insertAt_returns_true[OF deque123_invariant h, of "Val 9"] deque123_invariant h
    by simp
qed

end
